theory Spec2Isabelle
  imports Complex_Main "HOL-Library.Word" "HOL-Library.Multiset"
begin

section \<open>Machine types and faults\<close>

text \<open>
  The three programs (base.cpp, indirection.cpp, demo.cpp) are modelled for an LP64
  platform: \<^verbatim>\<open>int\<close> is a 32-bit two's complement integer, \<^verbatim>\<open>unsigned long\<close> and
  \<^verbatim>\<open>size_t\<close> are 64-bit unsigned integers.

  Unsigned arithmetic wraps around, as C++ defines it. Signed overflow in
  \<^verbatim>\<open>d * d\<close> and division by zero are undefined behaviour in C++: the model makes each of
  them an explicit fault, so a run either returns a value or stops at the first fault.
\<close>

type_synonym c_int = "32 word"
type_synonym c_ulong = "64 word"

datatype fault = SignedOverflow | DivideByZero | InvalidPointer

definition INT_MAX :: int where
  "INT_MAX = 2147483647"

definition INT_MIN :: int where
  "INT_MIN = - 2147483648"

text \<open>\<^verbatim>\<open>a * b\<close> on two \<^verbatim>\<open>int\<close>s: defined only when the product is representable.\<close>

definition mul_int :: "c_int \<Rightarrow> c_int \<Rightarrow> fault + c_int" where
  "mul_int a b =
     (if INT_MIN \<le> sint a * sint b \<and> sint a * sint b \<le> INT_MAX
      then Inr (a * b) else Inl SignedOverflow)"

section \<open>base.cpp: the reduction workload\<close>

text \<open>
  \<^verbatim>\<open>
  int doWork(const vector<int>& data)
  {
      unsigned long sum = 0;
      for (int d : data)
          sum += d * d;
      return (int)(sum / data.size());
  }
  \<close>
  The loop is \<open>sum_squares\<close>, with the accumulator \<^verbatim>\<open>sum\<close> as its second argument
  \<open>acc\<close>, and \<open>n\<close> is \<^verbatim>\<open>data.size()\<close>. The product
  is computed in \<^verbatim>\<open>int\<close> and then converted to \<^verbatim>\<open>unsigned long\<close> (sign extension,
  \<open>scast\<close>); the addition wraps modulo \<open>2 ^ 64\<close>; the division is unsigned; the final
  cast keeps the low 32 bits (\<open>ucast\<close>).
\<close>

fun sum_squares :: "c_int list \<Rightarrow> c_ulong \<Rightarrow> fault + c_ulong" where
  "sum_squares [] acc = Inr acc"
| "sum_squares (d # ds) acc =
     (case mul_int d d of
        Inl e \<Rightarrow> Inl e
      | Inr sq \<Rightarrow> sum_squares ds (acc + scast sq))"

definition doWork :: "c_int list \<Rightarrow> fault + c_int" where
  "doWork data =
     (case sum_squares data 0 of
        Inl e \<Rightarrow> Inl e
      | Inr acc \<Rightarrow>
          let n = (of_nat (length data) :: c_ulong)
          in if n = 0 then Inl DivideByZero else Inr (ucast (acc div n)))"

text \<open>
  The specification's value for the reduction: the floor of the mean of the squares,
  over the mathematical integers.
\<close>

definition floor_mean_squares :: "int list \<Rightarrow> int" where
  "floor_mean_squares vs = (\<Sum>v\<leftarrow>vs. v * v) div int (length vs)"

text \<open>The squares of all elements are representable in \<^verbatim>\<open>int\<close>.\<close>

definition squares_fit :: "c_int list \<Rightarrow> bool" where
  "squares_fit data = list_all (\<lambda>d. sint d * sint d \<le> INT_MAX) data"


section \<open>indirection.cpp and demo.cpp: the in-place workload\<close>

text \<open>
  The Reference Table is a \<^verbatim>\<open>vector<int*>\<close> whose entries point into the Sample Buffer,
  which is never reallocated. A pointer is modelled by the index it points to:
  \<open>Some i\<close> is \<^verbatim>\<open>&data[i]\<close> and \<open>None\<close> is the null pointer of a value-initialised
  vector. Dereferencing a null pointer or a pointer past the buffer is a fault.
\<close>

type_synonym ptr = "nat option"

text \<open>
  \<^verbatim>\<open>
  void doWork(vector<int*>& data)
  {
      for (int* d : data)
          *d = *d * *d;
  }
  \<close>
  (indirection.cpp lines 51-56 and demo.cpp lines 48-52 are the same function). The first
  argument is the table, the second the buffer that the table points into.
\<close>

fun doWork_ptrs :: "ptr list \<Rightarrow> c_int list \<Rightarrow> fault + c_int list" where
  "doWork_ptrs [] buf = Inr buf"
| "doWork_ptrs (d # ds) buf =
     (case d of
        None \<Rightarrow> Inl InvalidPointer
      | Some i \<Rightarrow>
          if length buf \<le> i then Inl InvalidPointer
          else (case mul_int (buf ! i) (buf ! i) of
                  Inl e \<Rightarrow> Inl e
                | Inr sq \<Rightarrow> doWork_ptrs ds (buf[i := sq])))"

text \<open>
  \<^verbatim>\<open>
  vector<int*> pointers(data.size());
  for (size_t i = 0; i < data.size(); ++i)
      pointers[i] = &data[i];
  \<close>
\<close>

function build_loop :: "nat \<Rightarrow> c_int list \<Rightarrow> ptr list \<Rightarrow> ptr list" where
  "build_loop i buf ptrs =
     (if i < length buf then build_loop (i + 1) buf (ptrs[i := Some i]) else ptrs)"
  by pat_completeness auto
termination
  by (relation "measure (\<lambda>(i, buf, ptrs). length buf - i)") auto

declare build_loop.simps [simp del]

definition buildIdentityTable :: "c_int list \<Rightarrow> ptr list" where
  "buildIdentityTable buf = build_loop 0 buf (replicate (length buf) None)"

text \<open>
  The table is a bijection onto the indices of a buffer of \<open>n\<close> elements: every index
  occurs exactly once and nothing else occurs.
\<close>

definition is_bijection :: "ptr list \<Rightarrow> nat \<Rightarrow> bool" where
  "is_bijection ptrs n = (mset ptrs = mset (map Some [0..<n]))"

section \<open>The Random Source\<close>

text \<open>
  \<^verbatim>\<open>default_random_engine\<close>, \<^verbatim>\<open>uniform_int_distribution\<close> and \<^verbatim>\<open>std::shuffle\<close> belong to
  the C++ standard library; the repository only calls them. The engine is a parameter
  \<open>gen\<close> of the model: one call takes the engine state and returns a number and the next
  state. The engine state \<^verbatim>\<open>re\<close> is threaded through every call, as the closure
  \<^verbatim>\<open>[&] { return ud(re); }\<close> and \<^verbatim>\<open>shuffle(..., re)\<close> share it by reference.
\<close>

type_synonym 'g engine = "'g \<Rightarrow> nat \<times> 'g"

text \<open>
  Modelled from the spec: \<^verbatim>\<open>uniform_int_distribution<int> ud(a, b)\<close> of the standard library,
  which is not in the repository. One draw consumes one engine output and returns a value
  between \<open>a\<close> and \<open>b\<close> inclusive (the specification's bounded range); the uniformity of
  the draw is not modelled. The library requires \<open>a \<le> b\<close>, as in both uses of the source.
\<close>

definition ud :: "int \<Rightarrow> int \<Rightarrow> 'g engine \<Rightarrow> 'g \<Rightarrow> c_int \<times> 'g" where
  "ud a b gen g = (case gen g of (r, g') \<Rightarrow> (word_of_int (a + int r mod (b - a + 1)), g'))"

text \<open>
  \<^verbatim>\<open>(int)sqrt(numeric_limits<int>::max())\<close>, the upper bound of the fill range of the
  indirection variants. The square root is taken over the reals; the double-precision
  square root of \<^verbatim>\<open>2147483647\<close> is \<^verbatim>\<open>46340.95...\<close>, so the rounding of the floating-point
  operation does not change the truncated value.
\<close>

definition sqrt_int_max :: int where
  "sqrt_int_max = \<lfloor>sqrt (real_of_int INT_MAX)\<rfloor>"

text \<open>
  \<^verbatim>\<open>
  template<typename R>
  void populateDataSet(vector<int>& data, R rng)
  {
      for (int& d : data)
          d = rng();
  }
  \<close>
\<close>

fun populateDataSet :: "c_int list \<Rightarrow> ('g \<Rightarrow> c_int \<times> 'g) \<Rightarrow> 'g \<Rightarrow> c_int list \<times> 'g" where
  "populateDataSet [] rng g = ([], g)"
| "populateDataSet (d # ds) rng g =
     (case rng g of (v, g') \<Rightarrow>
        (case populateDataSet ds rng g' of (vs, g'') \<Rightarrow> (v # vs, g'')))"

text \<open>
  Modelled from the spec: the exchange of two positions of a sequence
  (\<^verbatim>\<open>std::iter_swap\<close> of the standard library), the step of the shuffle below.
\<close>

definition iter_swap :: "nat \<Rightarrow> nat \<Rightarrow> 'a list \<Rightarrow> 'a list" where
  "iter_swap i j xs = xs[i := xs ! j, j := xs ! i]"

text \<open>
  Modelled from the spec: \<^verbatim>\<open>std::shuffle(first, last, g)\<close> of the standard library, which is
  not in the repository. The specification asks for a random permutation of the table in
  place, driven by the shared Random Source; the model is the exchange loop that
  libstdc++ and libc++ use: each position \<open>i\<close> from 1 on is exchanged with a drawn
  position \<open>j \<le> i\<close>. The uniformity of the permutation is not modelled.
\<close>

function shuffle_loop :: "nat \<Rightarrow> 'a list \<Rightarrow> 'g engine \<Rightarrow> 'g \<Rightarrow> 'a list \<times> 'g" where
  "shuffle_loop i xs gen g =
     (if i < length xs
      then shuffle_loop (i + 1) (iter_swap i (fst (gen g) mod (i + 1)) xs) gen (snd (gen g))
      else (xs, g))"
  by pat_completeness auto
termination
  by (relation "measure (\<lambda>(i, xs, gen, g). length xs - i)") (auto simp: iter_swap_def)

declare shuffle_loop.simps [simp del]

text \<open>Modelled from the spec: \<^verbatim>\<open>shuffle(begin(pointers), end(pointers), re)\<close>, the loop
  above started at position 1.\<close>

definition shuffle :: "'a list \<Rightarrow> 'g engine \<Rightarrow> 'g \<Rightarrow> 'a list \<times> 'g" where
  "shuffle xs gen g = shuffle_loop 1 xs gen g"

text \<open>
  Modelled from the spec: a deterministic stand-in for the Random Source, as section 8 of
  the specification uses for tests. It is the linear congruential generator
  \<^verbatim>\<open>minstd_rand0\<close>, which is libstdc++'s \<^verbatim>\<open>default_random_engine\<close>; only the examples
  use it.
\<close>

definition minstd_rand0 :: "nat engine" where
  "minstd_rand0 g = (16807 * g mod 2147483647, 16807 * g mod 2147483647)"

section \<open>The clock\<close>

text \<open>
  \<^verbatim>\<open>clk::now()\<close> reads \<^verbatim>\<open>high_resolution_clock\<close>. The clock is an input of the model:
  \<open>clk k\<close> is the value of the \<open>k\<close>-th reading of the run (counted from 0), in ticks of
  \<^verbatim>\<open>clk::duration\<close>, which are nanoseconds in libstdc++ and libc++. The program comments
  that this clock is not guaranteed to be monotonic, so nothing is assumed about \<open>clk\<close>.
  Durations are 64-bit signed tick counts in the program and integers in the model:
  a count leaves the 64-bit range only after 292 years.
\<close>

type_synonym clock = "nat \<Rightarrow> int"

text \<open>C++ division and remainder on signed integers truncate towards zero.\<close>

definition quot :: "int \<Rightarrow> int \<Rightarrow> int" where
  "quot a b = (if (a < 0) = (b < 0) then \<bar>a\<bar> div \<bar>b\<bar> else - (\<bar>a\<bar> div \<bar>b\<bar>))"

definition rem :: "int \<Rightarrow> int \<Rightarrow> int" where
  "rem a b = a - b * quot a b"

text \<open>\<^verbatim>\<open>duration_cast<milliseconds>(d).count()\<close> and \<^verbatim>\<open>duration_cast<microseconds>(d).count()\<close>
  for a duration of \<open>d\<close> nanoseconds; \<^verbatim>\<open>duration_cast<nanoseconds>\<close> is the identity.\<close>

definition count_ms :: "int \<Rightarrow> int" where
  "count_ms d = quot d 1000000"

definition count_us :: "int \<Rightarrow> int" where
  "count_us d = quot d 1000"

section \<open>Standard output\<close>

text \<open>\<^verbatim>\<open>cout << n\<close> prints an integer in decimal, with a minus sign when it is negative.\<close>

definition digit :: "nat \<Rightarrow> char" where
  "digit n = ''0123456789'' ! n"

fun show_nat :: "nat \<Rightarrow> string" where
  "show_nat n = (if n < 10 then [digit n] else show_nat (n div 10) @ [digit (n mod 10)])"

declare show_nat.simps [simp del]

definition show_int :: "int \<Rightarrow> string" where
  "show_int i = (if i < 0 then CHR ''-'' # show_nat (nat (- i)) else show_nat (nat i))"

definition newline :: string where
  "newline = [CHR 0x0A]"

definition carriage_return :: string where
  "carriage_return = [CHR 0x0D]"

section \<open>The state of a run\<close>

text \<open>
  The variables of \<^verbatim>\<open>main\<close> that change during a run: the Sample Buffer \<^verbatim>\<open>data\<close>, the
  Reference Table \<^verbatim>\<open>pointers\<close> (empty in base.cpp, which has none), the engine \<^verbatim>\<open>re\<close>, the
  Duration Accumulator \<^verbatim>\<open>runSum\<close> and the text written to \<^verbatim>\<open>cout\<close>. \<open>st_reads\<close> counts
  the clock readings made so far. \<open>st_trace\<close> is a history variable: every step of
  \<^verbatim>\<open>main\<close> appends its event, in program order; no step reads it.
\<close>

datatype event =
  EvBuildTable | EvPopulate | EvShuffle | EvClearCache | EvClockStart | EvDoWork
  | EvClockStop | EvAccumulate | EvProgress | EvReport

record 'g harness =
  st_data :: "c_int list"
  st_pointers :: "ptr list"
  st_re :: 'g
  st_reads :: nat
  st_runSum :: int
  st_cout :: string
  st_trace :: "event list"

definition log_event :: "event \<Rightarrow> 'g harness \<Rightarrow> 'g harness" where
  "log_event e st = st\<lparr>st_trace := st_trace st @ [e]\<rparr>"

text \<open>\<^verbatim>\<open>populateDataSet(data, rng)\<close> with \<^verbatim>\<open>rng = [&] { return ud(re); }\<close> and
  \<^verbatim>\<open>ud(a, b)\<close>.\<close>

definition populate_step :: "int \<Rightarrow> int \<Rightarrow> 'g engine \<Rightarrow> 'g harness \<Rightarrow> 'g harness" where
  "populate_step a b gen st =
     log_event EvPopulate
       (st\<lparr>st_data := fst (populateDataSet (st_data st) (ud a b gen) (st_re st)),
           st_re := snd (populateDataSet (st_data st) (ud a b gen) (st_re st))\<rparr>)"

text \<open>\<^verbatim>\<open>shuffle(begin(pointers), end(pointers), re)\<close>.\<close>

definition shuffle_step :: "'g engine \<Rightarrow> 'g harness \<Rightarrow> 'g harness" where
  "shuffle_step gen st =
     log_event EvShuffle
       (st\<lparr>st_pointers := fst (shuffle (st_pointers st) gen (st_re st)),
           st_re := snd (shuffle (st_pointers st) gen (st_re st))\<rparr>)"

text \<open>
  \<^verbatim>\<open>clearCache()\<close> copies one static byte array of \<^verbatim>\<open>cacheSize\<close> bytes into another. Both
  arrays are local to the function, so the call changes no variable of \<^verbatim>\<open>main\<close>.
\<close>

definition clearCache :: "'g harness \<Rightarrow> 'g harness" where
  "clearCache st = log_event EvClearCache st"

text \<open>\<^verbatim>\<open>const auto runStart = clk::now();\<close> The value read is \<open>clk (st_reads st)\<close>.\<close>

definition start_timer :: "'g harness \<Rightarrow> 'g harness" where
  "start_timer st = log_event EvClockStart (st\<lparr>st_reads := st_reads st + 1\<rparr>)"

text \<open>\<^verbatim>\<open>const auto runTime = clk::now() - runStart; runSum += runTime;\<close>\<close>

definition stop_timer :: "'g harness \<Rightarrow> 'g harness" where
  "stop_timer st = log_event EvClockStop (st\<lparr>st_reads := st_reads st + 1\<rparr>)"

definition accumulate :: "int \<Rightarrow> 'g harness \<Rightarrow> 'g harness" where
  "accumulate runTime st = log_event EvAccumulate (st\<lparr>st_runSum := st_runSum st + runTime\<rparr>)"

text \<open>\<^verbatim>\<open>for (size_t i = 0; i < iterations; ++i) { body }\<close>; a fault in the body ends the run.\<close>

function for_loop :: "(nat \<Rightarrow> 's \<Rightarrow> fault + 's) \<Rightarrow> nat \<Rightarrow> nat \<Rightarrow> 's \<Rightarrow> fault + 's" where
  "for_loop body i iterations st =
     (if i < iterations
      then (case body i st of
              Inl e \<Rightarrow> Inl e
            | Inr st' \<Rightarrow> for_loop body (i + 1) iterations st')
      else Inr st)"
  by pat_completeness auto
termination
  by (relation "measure (\<lambda>(body, i, iterations, st). iterations - i)") auto

declare for_loop.simps [simp del]

section \<open>The three trial loops\<close>

text \<open>
  base.cpp, lines 87-101:
  \<^verbatim>\<open>
  populateDataSet(data, rng);          // ud(1, 10)
  clearCache();
  const auto runStart = clk::now();
  const int result = doWork(data);
  const auto runTime = clk::now() - runStart;
  runSum += runTime;
  cout << "Run " << i + 1 << ": " << result << "\r";
  cout.flush();
  \<close>
\<close>

definition trial_base :: "clock \<Rightarrow> 'g engine \<Rightarrow> nat \<Rightarrow> 'g harness \<Rightarrow> fault + 'g harness" where
  "trial_base clk gen i st =
     (let st1 = clearCache (populate_step 1 10 gen st);
          runStart = clk (st_reads st1);
          st2 = start_timer st1
      in case doWork (st_data st2) of
           Inl e \<Rightarrow> Inl e
         | Inr result \<Rightarrow>
             let st3 = log_event EvDoWork st2;
                 runTime = clk (st_reads st3) - runStart;
                 st4 = accumulate runTime (stop_timer st3)
             in Inr (log_event EvProgress
                  (st4\<lparr>st_cout := st_cout st4 @ ''Run '' @ show_nat (i + 1) @ '': ''
                          @ show_int (sint result) @ carriage_return\<rparr>)))"

text \<open>
  indirection.cpp, lines 86-95:
  \<^verbatim>\<open>
  populateDataSet(data, rng);          // ud(1, (int)sqrt(numeric_limits<int>::max()))
  clearCache();
  const auto runStart = clk::now();
  doWork(pointers);
  const auto runTime = clk::now() - runStart;
  runSum += runTime;
  \<close>
\<close>

definition trial_indirection :: "clock \<Rightarrow> 'g engine \<Rightarrow> nat \<Rightarrow> 'g harness \<Rightarrow> fault + 'g harness" where
  "trial_indirection clk gen i st =
     (let st1 = clearCache (populate_step 1 sqrt_int_max gen st);
          runStart = clk (st_reads st1);
          st2 = start_timer st1
      in case doWork_ptrs (st_pointers st2) (st_data st2) of
           Inl e \<Rightarrow> Inl e
         | Inr buf \<Rightarrow>
             let st3 = log_event EvDoWork (st2\<lparr>st_data := buf\<rparr>);
                 runTime = clk (st_reads st3) - runStart
             in Inr (accumulate runTime (stop_timer st3)))"

text \<open>
  demo.cpp, lines 82-92: as indirection.cpp, with
  \<^verbatim>\<open>shuffle(begin(pointers), end(pointers), re);\<close> between \<^verbatim>\<open>populateDataSet\<close> and
  \<^verbatim>\<open>clearCache\<close>.
\<close>

definition trial_demo :: "clock \<Rightarrow> 'g engine \<Rightarrow> nat \<Rightarrow> 'g harness \<Rightarrow> fault + 'g harness" where
  "trial_demo clk gen i st =
     (let st1 = clearCache (shuffle_step gen (populate_step 1 sqrt_int_max gen st));
          runStart = clk (st_reads st1);
          st2 = start_timer st1
      in case doWork_ptrs (st_pointers st2) (st_data st2) of
           Inl e \<Rightarrow> Inl e
         | Inr buf \<Rightarrow>
             let st3 = log_event EvDoWork (st2\<lparr>st_data := buf\<rparr>);
                 runTime = clk (st_reads st3) - runStart
             in Inr (accumulate runTime (stop_timer st3)))"


section \<open>The Reporter\<close>

text \<open>
  base.cpp, line 105: \<^verbatim>\<open>duration_cast<microseconds>(runSum).count() / iterations\<close> with
  \<^verbatim>\<open>iterations\<close> an \<^verbatim>\<open>unsigned int\<close>: the divisor is converted to \<^verbatim>\<open>long\<close> and the division
  is signed.
\<close>

definition averageRunTime_base :: "int \<Rightarrow> nat \<Rightarrow> fault + int" where
  "averageRunTime_base runSum iterations =
     (if iterations = 0 then Inl DivideByZero
      else Inr (quot (count_us runSum) (int iterations)))"

text \<open>
  indirection.cpp, line 98, and demo.cpp, line 95:
  \<^verbatim>\<open>duration_cast<nanoseconds>(runSum).count() / iterations\<close> with \<^verbatim>\<open>iterations\<close> a
  \<^verbatim>\<open>size_t\<close>: the \<^verbatim>\<open>long\<close> count is converted to \<^verbatim>\<open>unsigned long\<close> and the division is
  unsigned.
\<close>

definition averageRunTime_ptrs :: "int \<Rightarrow> nat \<Rightarrow> fault + c_ulong" where
  "averageRunTime_ptrs runSum iterations =
     (if (of_nat iterations :: c_ulong) = 0 then Inl DivideByZero
      else Inr ((word_of_int runSum :: c_ulong) div of_nat iterations))"

text \<open>The three summary lines.\<close>

definition total_line :: "int \<Rightarrow> string" where
  "total_line actualRuntime =
     ''Ran for a total of '' @ show_int (quot actualRuntime 1000) @ ''.''
     @ show_int (rem actualRuntime 1000)
     @ '' seconds (including bookkeeping and cache clearing)'' @ newline"

definition runs_line :: "nat \<Rightarrow> int \<Rightarrow> string" where
  "runs_line iterations cumulativeTime =
     show_nat iterations @ '' runs took '' @ show_int (quot cumulativeTime 1000) @ ''.''
     @ show_int (rem cumulativeTime 1000) @ '' seconds total,'' @ newline"

definition average_line_base :: "int \<Rightarrow> string" where
  "average_line_base averageRunTime =
     ''Averaging '' @ show_int (quot averageRunTime 1000) @ ''.''
     @ show_int (rem averageRunTime 1000) @ '' milliseconds per run'' @ newline"

definition average_line_ptrs :: "c_ulong \<Rightarrow> string" where
  "average_line_ptrs averageRunTime =
     ''Averaging '' @ show_nat (unat (averageRunTime div 1000)) @ ''.''
     @ show_nat (unat (averageRunTime mod 1000)) @ '' milliseconds per run'' @ newline"

text \<open>base.cpp, lines 102-113. \<open>programStartTime\<close> is the first clock reading of the run.\<close>

definition report_base :: "clock \<Rightarrow> nat \<Rightarrow> int \<Rightarrow> 'g harness \<Rightarrow> fault + 'g harness" where
  "report_base clk iterations programStartTime st =
     (let st1 = st\<lparr>st_cout := st_cout st @ newline\<rparr>;
          cumulativeTime = count_ms (st_runSum st1)
      in case averageRunTime_base (st_runSum st1) iterations of
           Inl e \<Rightarrow> Inl e
         | Inr averageRunTime \<Rightarrow>
             let actualRuntime = count_ms (clk (st_reads st1) - programStartTime);
                 st2 = st1\<lparr>st_reads := st_reads st1 + 1\<rparr>
             in Inr (log_event EvReport
                  (st2\<lparr>st_cout := st_cout st2 @ total_line actualRuntime
                          @ runs_line iterations cumulativeTime
                          @ average_line_base averageRunTime\<rparr>)))"

text \<open>indirection.cpp, lines 97-106, and demo.cpp, lines 94-103.\<close>

definition report_ptrs :: "clock \<Rightarrow> nat \<Rightarrow> int \<Rightarrow> 'g harness \<Rightarrow> fault + 'g harness" where
  "report_ptrs clk iterations programStartTime st =
     (let cumulativeTime = count_ms (st_runSum st)
      in case averageRunTime_ptrs (st_runSum st) iterations of
           Inl e \<Rightarrow> Inl e
         | Inr averageRunTime \<Rightarrow>
             let actualRuntime = count_ms (clk (st_reads st) - programStartTime);
                 st1 = st\<lparr>st_reads := st_reads st + 1\<rparr>
             in Inr (log_event EvReport
                  (st1\<lparr>st_cout := st_cout st1 @ total_line actualRuntime
                          @ runs_line iterations cumulativeTime
                          @ average_line_ptrs averageRunTime\<rparr>)))"

section \<open>The three programs\<close>

text \<open>
  Each \<^verbatim>\<open>main\<close> is modelled with its two configuration constants as parameters: the
  iteration count and the number of buffer elements. The inputs of a run are the clock,
  the engine and its seed (\<^verbatim>\<open>default_random_engine re(rd())\<close>).
\<close>

definition cacheSize :: nat where
  "cacheSize = 8 * 1024 * 1024"

definition intsInCache :: nat where
  "intsInCache = cacheSize div 4"

definition base_init :: "nat \<Rightarrow> 'g \<Rightarrow> 'g harness" where
  "base_init n seed =
     \<lparr>st_data = replicate n 0, st_pointers = [], st_re = seed, st_reads = 1,
      st_runSum = 0, st_cout = [], st_trace = []\<rparr>"

definition ptrs_init :: "nat \<Rightarrow> 'g \<Rightarrow> 'g harness" where
  "ptrs_init n seed =
     \<lparr>st_data = replicate n 0, st_pointers = buildIdentityTable (replicate n 0),
      st_re = seed, st_reads = 1, st_runSum = 0, st_cout = [],
      st_trace = [EvBuildTable]\<rparr>"

definition base_program :: "nat \<Rightarrow> nat \<Rightarrow> clock \<Rightarrow> 'g engine \<Rightarrow> 'g \<Rightarrow> fault + 'g harness" where
  "base_program iterations n clk gen seed =
     (case for_loop (trial_base clk gen) 0 iterations (base_init n seed) of
        Inl e \<Rightarrow> Inl e
      | Inr st \<Rightarrow> report_base clk iterations (clk 0) st)"

definition indirection_program ::
  "nat \<Rightarrow> nat \<Rightarrow> clock \<Rightarrow> 'g engine \<Rightarrow> 'g \<Rightarrow> fault + 'g harness" where
  "indirection_program iterations n clk gen seed =
     (case for_loop (trial_indirection clk gen) 0 iterations (ptrs_init n seed) of
        Inl e \<Rightarrow> Inl e
      | Inr st \<Rightarrow> report_ptrs clk iterations (clk 0) st)"

definition demo_program :: "nat \<Rightarrow> nat \<Rightarrow> clock \<Rightarrow> 'g engine \<Rightarrow> 'g \<Rightarrow> fault + 'g harness" where
  "demo_program iterations n clk gen seed =
     (case for_loop (trial_demo clk gen) 0 iterations (ptrs_init n seed) of
        Inl e \<Rightarrow> Inl e
      | Inr st \<Rightarrow> report_ptrs clk iterations (clk 0) st)"

text \<open>\<^verbatim>\<open>main\<close> with the constants of the source: 1000 iterations and
  \<^verbatim>\<open>intsInCache * 10\<close> elements.\<close>

definition base_main :: "clock \<Rightarrow> 'g engine \<Rightarrow> 'g \<Rightarrow> fault + 'g harness" where
  "base_main = base_program 1000 (intsInCache * 10)"

definition indirection_main :: "clock \<Rightarrow> 'g engine \<Rightarrow> 'g \<Rightarrow> fault + 'g harness" where
  "indirection_main = indirection_program 1000 (intsInCache * 10)"

definition demo_main :: "clock \<Rightarrow> 'g engine \<Rightarrow> 'g \<Rightarrow> fault + 'g harness" where
  "demo_main = demo_program 1000 (intsInCache * 10)"


section \<open>The vocabulary of the specification\<close>

text \<open>
  The Reference Table invariant on a state: the table is a bijection onto the indices
  of the Sample Buffer.
\<close>

definition table_ok :: "'g harness \<Rightarrow> bool" where
  "table_ok st = is_bijection (st_pointers st) (length (st_data st))"

text \<open>
  The elapsed time of trial \<open>k\<close> (counted from 0): its end timestamp minus its start
  timestamp. Reading 0 of the clock is \<^verbatim>\<open>programStartTime\<close>; trial \<open>k\<close> makes the readings
  \<open>2 * k + 1\<close> and \<open>2 * k + 2\<close>.
\<close>

definition elapsed :: "clock \<Rightarrow> nat \<Rightarrow> int" where
  "elapsed clk k = clk (2 * k + 2) - clk (2 * k + 1)"

text \<open>The steps of one trial, in the order of section 4.5 of the specification.\<close>

definition base_trial_events :: "event list" where
  "base_trial_events =
     [EvPopulate, EvClearCache, EvClockStart, EvDoWork, EvClockStop, EvAccumulate, EvProgress]"

definition indirection_trial_events :: "event list" where
  "indirection_trial_events =
     [EvPopulate, EvClearCache, EvClockStart, EvDoWork, EvClockStop, EvAccumulate]"

definition demo_trial_events :: "event list" where
  "demo_trial_events =
     [EvPopulate, EvShuffle, EvClearCache, EvClockStart, EvDoWork, EvClockStop, EvAccumulate]"

text \<open>The progress line of trial number \<open>k\<close> (counted from 1) with result \<open>r\<close>.\<close>

definition progress_line :: "nat \<Rightarrow> int \<Rightarrow> string" where
  "progress_line k r = ''Run '' @ show_nat k @ '': '' @ show_int r @ carriage_return"

text \<open>The progress lines of a run whose trials returned the results \<open>rs\<close>.\<close>

definition progress_lines :: "int list \<Rightarrow> string" where
  "progress_lines rs = concat (map (\<lambda>(k, r). progress_line (k + 1) r) (zip [0..<length rs] rs))"

text \<open>
  The state \<open>st\<close> after \<open>i\<close> trials that started in \<open>st0\<close>, each trial logging the
  events \<open>evs\<close>: the buffer keeps its size, each trial reads the clock twice and adds the
  difference of its two readings to \<^verbatim>\<open>runSum\<close>.
\<close>

definition loop_inv ::
  "clock \<Rightarrow> event list \<Rightarrow> 'g harness \<Rightarrow> nat \<Rightarrow> 'g harness \<Rightarrow> bool" where
  "loop_inv clk evs st0 i st =
     (length (st_data st) = length (st_data st0)
      \<and> st_reads st = st_reads st0 + 2 * i
      \<and> st_runSum st = st_runSum st0 + (\<Sum>k<i. clk (st_reads st0 + 2 * k + 1) - clk (st_reads st0 + 2 * k))
      \<and> st_trace st = st_trace st0 @ concat (replicate i evs))"

text \<open>
  Two clocks for evaluating the model on examples: one that advances between all
  readings, and one that the operating system sets back between readings 1 and 2.
\<close>

definition advancing_clock :: clock where
  "advancing_clock k = 1000 + 1500000 * int k * int k"

definition stepped_back_clock :: clock where
  "stepped_back_clock k = (if k = 1 then 100 else 50)"

section \<open>Arithmetic of the reduction\<close>

lemma sint_ucast_small:
  fixes w :: c_ulong
  assumes "uint w \<le> INT_MAX"
  shows "sint (ucast w :: c_int) = uint w"
proof -
  have lt: "uint w < 2 ^ 32" using assms by (simp add: INT_MAX_def)
  have ge: "- 2147483648 \<le> uint w"
    using uint_ge_0[of w] by linarith
  have "uint (ucast w :: c_int) = take_bit 32 (uint w)"
    by (simp add: unsigned_ucast_eq unsigned_take_bit_eq)
  also have "\<dots> = uint w"
    using lt by (simp add: take_bit_int_eq_self)
  finally have u: "uint (ucast w :: c_int) = uint w" .
  have "sint (ucast w :: c_int) = signed_take_bit 31 (uint (ucast w :: c_int))"
    by (simp add: sint_uint)
  also have "\<dots> = uint w"
    unfolding u using assms ge by (intro signed_take_bit_int_eq_self) (simp_all add: INT_MAX_def)
  finally show ?thesis .
qed


lemma sint_mult_fit:
  fixes a b :: c_int
  assumes "INT_MIN \<le> sint a * sint b" and "sint a * sint b \<le> INT_MAX"
  shows "sint (a * b) = sint a * sint b"
proof -
  define p where "p = sint a * sint b"
  have "sint (a * b) = signed_take_bit (LENGTH(32) - 1) p"
    unfolding p_def by (rule sint_word_ariths)
  also have "\<dots> = signed_take_bit 31 p" by simp
  also have "\<dots> = p"
    using assms unfolding p_def[symmetric] INT_MIN_def INT_MAX_def
    by (intro signed_take_bit_int_eq_self) simp_all
  finally show ?thesis by (simp only: p_def)
qed

lemma mul_int_fit:
  assumes "sint d * sint d \<le> INT_MAX"
  shows "mul_int d d = Inr (d * d)" and "sint (d * d) = sint d * sint d"
proof -
  have "0 \<le> sint d * sint d" by (rule zero_le_square)
  then have lo: "INT_MIN \<le> sint d * sint d" unfolding INT_MIN_def by linarith
  show "mul_int d d = Inr (d * d)"
    unfolding mul_int_def using lo assms by (simp only: simp_thms if_True)
  show "sint (d * d) = sint d * sint d"
    using lo assms by (rule sint_mult_fit)
qed

lemma scast_square:
  fixes d :: c_int
  assumes "sint d * sint d \<le> INT_MAX"
  shows "(scast (d * d) :: c_ulong) = word_of_int (sint d * sint d)"
proof -
  have "(scast (d * d) :: c_ulong) = word_of_int (sint (d * d))" by simp
  then show ?thesis using mul_int_fit(2)[OF assms] by simp
qed

lemma sum_squares_fit:
  "squares_fit data \<Longrightarrow>
   sum_squares data acc = Inr (acc + word_of_int (\<Sum>d\<leftarrow>data. sint d * sint d))"
proof (induction data arbitrary: acc)
  case Nil
  then show ?case by simp
next
  case (Cons d ds)
  then show ?case
    by (simp add: squares_fit_def mul_int_fit scast_square add.assoc)
qed

lemma sum_squares_overflow:
  "\<not> squares_fit data \<Longrightarrow> sum_squares data acc = Inl SignedOverflow"
proof (induction data arbitrary: acc)
  case Nil
  then show ?case by (simp add: squares_fit_def)
next
  case (Cons d ds)
  show ?case
  proof (cases "sint d * sint d \<le> INT_MAX")
    case True
    with Cons show ?thesis by (simp add: squares_fit_def mul_int_fit)
  next
    case False
    then show ?thesis by (simp add: mul_int_def)
  qed
qed

lemma sum_list_squares_bounds:
  "squares_fit data \<Longrightarrow>
   0 \<le> (\<Sum>d\<leftarrow>data. sint d * sint d) \<and> (\<Sum>d\<leftarrow>data. sint d * sint d) \<le> int (length data) * INT_MAX"
  by (induction data) (auto simp: squares_fit_def algebra_simps)

lemma doWork_fit:
  assumes fit: "squares_fit data"
    and ne: "data \<noteq> []"
    and len: "length data < 2 ^ 64"
    and total: "(\<Sum>d\<leftarrow>data. sint d * sint d) < 2 ^ 64"
  shows "\<exists>r. doWork data = Inr r \<and> sint r = floor_mean_squares (map sint data)"
proof -
  define S where "S = (\<Sum>d\<leftarrow>data. sint d * sint d)"
  define n where "n = (of_nat (length data) :: c_ulong)"
  define acc where "acc = (word_of_int S :: c_ulong)"
  from sum_list_squares_bounds[OF fit]
  have S0: "0 \<le> S" and Sn: "S \<le> int (length data) * INT_MAX" by (simp_all add: S_def)
  have un: "uint n = int (length data)"
    unfolding n_def using len by (simp add: unsigned_of_nat take_bit_nat_eq_self)
  have n0: "n \<noteq> 0"
  proof
    assume "n = 0"
    then have "uint n = 0" by simp
    with un ne show False by simp
  qed
  have uacc: "uint acc = S"
    unfolding acc_def using S0 total by (simp add: uint_word_of_int_eq take_bit_int_eq_self S_def)
  have q: "uint (acc div n) = S div int (length data)"
    by (simp add: uint_div un uacc)
  have lenpos: "0 < int (length data)" using ne by simp
  have qm: "S div int (length data) \<le> INT_MAX"
  proof -
    have "S div int (length data) \<le> (int (length data) * INT_MAX) div int (length data)"
      using Sn by (rule zdiv_mono1) (rule lenpos)
    also have "\<dots> = INT_MAX" using lenpos by simp
    finally show ?thesis .
  qed
  have r: "sint (ucast (acc div n) :: c_int) = S div int (length data)"
    using sint_ucast_small[of "acc div n"] q qm by simp
  have f: "floor_mean_squares (map sint data) = S div int (length data)"
    by (simp add: floor_mean_squares_def comp_def S_def)
  have "sum_squares data 0 = Inr acc"
    using sum_squares_fit[OF fit, of 0] by (simp add: acc_def S_def)
  then have "doWork data = Inr (ucast (acc div n))"
    using n0 by (simp add: doWork_def Let_def n_def)
  with r f show ?thesis by simp
qed

lemma doWork_DivideByZero_iff:
  assumes len: "length data < 2 ^ 64"
  shows "doWork data = Inl DivideByZero \<longleftrightarrow> data = []"
proof (cases "squares_fit data")
  case True
  have "uint (of_nat (length data) :: c_ulong) = int (length data)"
    using len by (simp add: unsigned_of_nat take_bit_nat_eq_self)
  then have "(of_nat (length data) :: c_ulong) = 0 \<longleftrightarrow> data = []"
    by auto
  then show ?thesis
    unfolding doWork_def sum_squares_fit[OF True] by (simp add: Let_def)
next
  case False
  then have "data \<noteq> []" by (auto simp: squares_fit_def)
  then show ?thesis
    unfolding doWork_def sum_squares_overflow[OF False] by simp
qed


section \<open>The reduction-mode executor\<close>

text \<open>
  C1. The reduction-mode \<open>doWork\<close> goes through the buffer in storage order, adds the
  square of each element to a 64-bit accumulator and returns the floor of the sum of
  squares divided by the element count. This holds for every non-empty buffer in which
  the square of each element is representable in \<^verbatim>\<open>int\<close> and whose sum of squares is
  below \<open>2 ^ 64\<close>: the product \<^verbatim>\<open>d * d\<close> is computed in \<^verbatim>\<open>int\<close> before it is widened.
\<close>

theorem doWork_floor_mean:
  assumes "data \<noteq> []"
    and "length data < 2 ^ 64"
    and "squares_fit data"
    and "(\<Sum>d\<leftarrow>data. sint d * sint d) < 2 ^ 64"
  shows "\<exists>r. doWork data = Inr r \<and> sint r = floor_mean_squares (map sint data)"
  using assms doWork_fit by blast

theorem doWork_floor_mean_witness:
  "[2, 3, 4] \<noteq> ([] :: c_int list) \<and> length [2, 3, 4 :: c_int] < 2 ^ 64
   \<and> squares_fit [2, 3, 4]
   \<and> (\<Sum>d\<leftarrow>[2, 3, 4 :: c_int]. sint d * sint d) < 2 ^ 64
   \<and> (\<exists>r. doWork [2, 3, 4] = Inr r \<and> sint r = 9)
   \<and> floor_mean_squares (map sint [2, 3, 4 :: c_int]) = 9"
proof -
  have h1: "[2, 3, 4] \<noteq> ([] :: c_int list)" by simp
  have h2: "length [2, 3, 4 :: c_int] < 2 ^ 64" by simp
  have h3: "squares_fit [2, 3, 4]" by (simp add: squares_fit_def INT_MAX_def)
  have h4: "(\<Sum>d\<leftarrow>[2, 3, 4 :: c_int]. sint d * sint d) < 2 ^ 64" by simp
  have v: "floor_mean_squares (map sint [2, 3, 4 :: c_int]) = 9"
    by (simp add: floor_mean_squares_def)
  from doWork_floor_mean [OF h1 h2 h3 h4] v h1 h2 h3 h4 show ?thesis by simp
qed

text \<open>
  On the one-element buffer \<open>[65536]\<close> the specification's value is \<open>2 ^ 32\<close>, which no
  \<^verbatim>\<open>int\<close> holds; the product \<^verbatim>\<open>d * d\<close> overflows and the run has no defined result.
\<close>

theorem doWork_floor_mean_counterexample:
  "doWork [65536] = Inl SignedOverflow
   \<and> floor_mean_squares (map sint [65536 :: c_int]) = 4294967296"
  by (simp add: doWork_def mul_int_def INT_MAX_def INT_MIN_def floor_mean_squares_def)

text \<open>
  C10. The reduction-mode \<open>doWork\<close> divides by the element count: on the empty buffer
  it divides by zero, and on every non-empty buffer the division is defined. It returns
  a value on every non-empty buffer in which the square of each element is representable
  in \<^verbatim>\<open>int\<close>.
\<close>

theorem doWork_division_defined:
  "doWork [] = Inl DivideByZero
   \<and> (data \<noteq> [] \<and> length data < 2 ^ 64 \<longrightarrow>
        doWork data \<noteq> Inl DivideByZero
        \<and> (squares_fit data \<longrightarrow> (\<exists>r. doWork data = Inr r)))"
proof -
  have e: "doWork [] = Inl DivideByZero" by (simp add: doWork_def)
  have n: "doWork data \<noteq> Inl DivideByZero" if "data \<noteq> []" "length data < 2 ^ 64"
    using that doWork_DivideByZero_iff by blast
  have r: "\<exists>r. doWork data = Inr r"
    if ne: "data \<noteq> []" and len: "length data < 2 ^ 64" and fit: "squares_fit data"
  proof (cases "doWork data")
    case (Inl e)
    have "sum_squares data 0 \<noteq> Inl e" for e
      using sum_squares_fit [OF fit, of 0] by simp
    with Inl n [OF ne len] show ?thesis
      by (auto simp: doWork_def Let_def split: sum.splits if_splits)
  next
    case (Inr r)
    then show ?thesis by blast
  qed
  from e n r show ?thesis by blast
qed

theorem doWork_division_defined_witness:
  "doWork [] = Inl DivideByZero
   \<and> [3, 4] \<noteq> ([] :: c_int list) \<and> length [3, 4 :: c_int] < 2 ^ 64
   \<and> squares_fit [3, 4]
   \<and> doWork [3, 4] \<noteq> Inl DivideByZero \<and> (\<exists>r. doWork [3, 4] = Inr r)"
proof -
  have h: "[3, 4] \<noteq> ([] :: c_int list) \<and> length [3, 4 :: c_int] < 2 ^ 64" by simp
  have f: "squares_fit [3, 4]" by (simp add: squares_fit_def INT_MAX_def)
  from doWork_division_defined [of "[3, 4]"] h f show ?thesis by blast
qed

text \<open>
  The buffer \<open>[46341]\<close> is not empty, and the run has no defined result on it:
  \<open>46341 * 46341\<close> is above the largest \<^verbatim>\<open>int\<close>.
\<close>

theorem doWork_division_defined_counterexample:
  "[46341] \<noteq> ([] :: c_int list) \<and> doWork [46341] = Inl SignedOverflow"
  by (simp add: doWork_def mul_int_def INT_MAX_def INT_MIN_def)


section \<open>The in-place workload and the Reference Table\<close>

lemma mul_int_overflow:
  "\<not> sint d * sint d \<le> INT_MAX \<Longrightarrow> mul_int d d = Inl SignedOverflow"
  by (simp add: mul_int_def)

lemma doWork_ptrs_distinct:
  assumes "distinct ptrs"
    and "\<forall>p\<in>set ptrs. \<exists>i. p = Some i \<and> i < length buf \<and> sint (buf ! i) * sint (buf ! i) \<le> INT_MAX"
  shows "doWork_ptrs ptrs buf =
         Inr (map (\<lambda>i. if Some i \<in> set ptrs then buf ! i * buf ! i else buf ! i) [0..<length buf])"
  using assms
proof (induction ptrs arbitrary: buf)
  case Nil
  then show ?case by (simp add: map_nth)
next
  case (Cons p ps)
  from Cons.prems(2) obtain i where p: "p = Some i" and i: "i < length buf"
    and fit: "sint (buf ! i) * sint (buf ! i) \<le> INT_MAX"
    by auto
  define buf' where "buf' = buf[i := buf ! i * buf ! i]"
  have notin: "Some i \<notin> set ps" using Cons.prems(1) p by simp
  have same: "buf' ! j = buf ! j" if "Some j \<in> set ps" for j
  proof -
    from that notin have "i \<noteq> j" by auto
    then show ?thesis by (simp add: buf'_def)
  qed
  have pre: "\<forall>q\<in>set ps. \<exists>j. q = Some j \<and> j < length buf' \<and> sint (buf' ! j) * sint (buf' ! j) \<le> INT_MAX"
  proof
    fix q assume q: "q \<in> set ps"
    with Cons.prems(2) obtain j where j: "q = Some j" "j < length buf"
      "sint (buf ! j) * sint (buf ! j) \<le> INT_MAX" by auto
    with q same[of j] show "\<exists>j. q = Some j \<and> j < length buf' \<and> sint (buf' ! j) * sint (buf' ! j) \<le> INT_MAX"
      by (simp add: buf'_def)
  qed
  have d: "distinct ps" using Cons.prems(1) by simp
  have step: "doWork_ptrs (p # ps) buf = doWork_ptrs ps buf'"
    using p i mul_int_fit(1)[OF fit] by (simp add: buf'_def)
  have "map (\<lambda>j. if Some j \<in> set ps then buf' ! j * buf' ! j else buf' ! j) [0..<length buf'] =
        map (\<lambda>j. if Some j \<in> set (p # ps) then buf ! j * buf ! j else buf ! j) [0..<length buf]"
  proof (rule nth_equalityI)
    show "length (map (\<lambda>j. if Some j \<in> set ps then buf' ! j * buf' ! j else buf' ! j) [0..<length buf']) =
          length (map (\<lambda>j. if Some j \<in> set (p # ps) then buf ! j * buf ! j else buf ! j) [0..<length buf])"
      by (simp add: buf'_def)
  next
    fix k assume "k < length (map (\<lambda>j. if Some j \<in> set ps then buf' ! j * buf' ! j else buf' ! j) [0..<length buf'])"
    then have k: "k < length buf" by (simp add: buf'_def)
    show "map (\<lambda>j. if Some j \<in> set ps then buf' ! j * buf' ! j else buf' ! j) [0..<length buf'] ! k =
          map (\<lambda>j. if Some j \<in> set (p # ps) then buf ! j * buf ! j else buf ! j) [0..<length buf] ! k"
    proof (cases "k = i")
      case True
      then show ?thesis using k notin p by (simp add: buf'_def)
    next
      case False
      then show ?thesis using k p by (simp add: buf'_def)
    qed
  qed
  with Cons.IH[OF d pre] step show ?case by simp
qed

lemma doWork_ptrs_overflow:
  assumes "distinct ptrs"
    and "\<forall>p\<in>set ptrs. \<exists>i. p = Some i \<and> i < length buf"
    and "\<exists>i. Some i \<in> set ptrs \<and> \<not> sint (buf ! i) * sint (buf ! i) \<le> INT_MAX"
  shows "doWork_ptrs ptrs buf = Inl SignedOverflow"
  using assms
proof (induction ptrs arbitrary: buf)
  case Nil
  then show ?case by simp
next
  case (Cons p ps)
  from Cons.prems(2) obtain i where p: "p = Some i" and i: "i < length buf" by auto
  show ?case
  proof (cases "sint (buf ! i) * sint (buf ! i) \<le> INT_MAX")
    case False
    then show ?thesis using p i by (simp add: mul_int_overflow)
  next
    case True
    define buf' where "buf' = buf[i := buf ! i * buf ! i]"
    have notin: "Some i \<notin> set ps" using Cons.prems(1) p by simp
    from Cons.prems(3) True p obtain j where j: "Some j \<in> set ps"
      "\<not> sint (buf ! j) * sint (buf ! j) \<le> INT_MAX" by auto
    then have "j \<noteq> i" using notin by auto
    then have "buf' ! j = buf ! j" by (simp add: buf'_def)
    with j have ex: "\<exists>j. Some j \<in> set ps \<and> \<not> sint (buf' ! j) * sint (buf' ! j) \<le> INT_MAX"
      by auto
    have rng: "\<forall>q\<in>set ps. \<exists>j. q = Some j \<and> j < length buf'"
      using Cons.prems(2) by (simp add: buf'_def)
    have d: "distinct ps" using Cons.prems(1) by simp
    have "doWork_ptrs (p # ps) buf = doWork_ptrs ps buf'"
      using p i mul_int_fit(1)[OF True] by (simp add: buf'_def)
    with Cons.IH[OF d rng ex] show ?thesis by simp
  qed
qed

lemma is_bijection_distinct: "is_bijection ptrs n \<Longrightarrow> distinct ptrs"
  unfolding is_bijection_def
  by (metis distinct_map distinct_upt inj_on_def option.inject mset_eq_imp_distinct_iff)

lemma is_bijection_set: "is_bijection ptrs n \<Longrightarrow> set ptrs = Some ` {0..<n}"
  unfolding is_bijection_def using mset_eq_setD by fastforce

lemma is_bijection_length: "is_bijection ptrs n \<Longrightarrow> length ptrs = n"
  unfolding is_bijection_def using mset_eq_length by fastforce

lemma squares_fit_nth:
  "squares_fit buf \<Longrightarrow> i < length buf \<Longrightarrow> sint (buf ! i) * sint (buf ! i) \<le> INT_MAX"
  by (simp add: squares_fit_def list_all_length)

lemma doWork_ptrs_bijection:
  assumes bij: "is_bijection ptrs (length buf)" and fit: "squares_fit buf"
  shows "doWork_ptrs ptrs buf = Inr (map (\<lambda>v. v * v) buf)"
proof -
  have s: "set ptrs = Some ` {0..<length buf}" by (rule is_bijection_set[OF bij])
  have pre: "\<forall>p\<in>set ptrs. \<exists>i. p = Some i \<and> i < length buf \<and> sint (buf ! i) * sint (buf ! i) \<le> INT_MAX"
    using s squares_fit_nth[OF fit] by auto
  have "map (\<lambda>i. if Some i \<in> set ptrs then buf ! i * buf ! i else buf ! i) [0..<length buf]
        = map (\<lambda>v. v * v) buf"
    by (rule nth_equalityI) (simp_all add: s)
  with doWork_ptrs_distinct[OF is_bijection_distinct[OF bij] pre] show ?thesis by simp
qed

lemma doWork_ptrs_bijection_overflow:
  assumes bij: "is_bijection ptrs (length buf)" and nofit: "\<not> squares_fit buf"
  shows "doWork_ptrs ptrs buf = Inl SignedOverflow"
proof -
  have s: "set ptrs = Some ` {0..<length buf}" by (rule is_bijection_set[OF bij])
  have rng: "\<forall>p\<in>set ptrs. \<exists>i. p = Some i \<and> i < length buf" using s by auto
  from nofit obtain i where "i < length buf" "\<not> sint (buf ! i) * sint (buf ! i) \<le> INT_MAX"
    by (auto simp: squares_fit_def list_all_length)
  then have "Some i \<in> set ptrs \<and> \<not> sint (buf ! i) * sint (buf ! i) \<le> INT_MAX"
    using s by simp
  then have "\<exists>i. Some i \<in> set ptrs \<and> \<not> sint (buf ! i) * sint (buf ! i) \<le> INT_MAX" ..
  from doWork_ptrs_overflow[OF is_bijection_distinct[OF bij] rng this] show ?thesis .
qed

lemma build_loop_eq:
  "i \<le> length buf \<Longrightarrow> length ptrs = length buf \<Longrightarrow>
   build_loop i buf ptrs = take i ptrs @ map Some [i..<length buf]"
proof (induction i buf ptrs rule: build_loop.induct)
  case (1 i buf ptrs)
  show ?case
  proof (cases "i < length buf")
    case True
    have "build_loop i buf ptrs = build_loop (i + 1) buf (ptrs[i := Some i])"
      using True by (subst build_loop.simps) simp
    also have "\<dots> = take (i + 1) (ptrs[i := Some i]) @ map Some [i + 1..<length buf]"
      using True "1.prems" by (intro "1.IH") simp_all
    also have "take (i + 1) (ptrs[i := Some i]) = take i ptrs @ [Some i]"
      using True "1.prems" by (simp add: take_Suc_conv_app_nth)
    finally show ?thesis using True by (simp add: upt_conv_Cons)
  next
    case False
    with "1.prems" have "i = length buf" by simp
    then show ?thesis using "1.prems" by (subst build_loop.simps) simp
  qed
qed

lemma buildIdentityTable_eq: "buildIdentityTable buf = map Some [0..<length buf]"
  by (simp add: buildIdentityTable_def build_loop_eq)

section \<open>Fill ranges and the shuffle\<close>

lemma sqrt_int_max_eq: "sqrt_int_max = 46340"
proof -
  have lo: "(46340::real) \<le> sqrt 2147483647"
    by (rule real_le_rsqrt) simp
  have hi: "sqrt 2147483647 < (46341::real)"
    by (rule real_less_lsqrt) simp_all
  have "\<lfloor>sqrt (2147483647::real)\<rfloor> = 46340"
    using lo hi by (simp add: floor_eq_iff)
  then show ?thesis by (simp add: sqrt_int_max_def INT_MAX_def)
qed

lemma ud_range:
  assumes "a \<le> b" and "INT_MIN \<le> a" and "b \<le> INT_MAX"
  shows "a \<le> sint (fst (ud a b gen g)) \<and> sint (fst (ud a b gen g)) \<le> b"
proof -
  define v where "v = a + int (fst (gen g)) mod (b - a + 1)"
  have pos: "0 < b - a + 1" using assms(1) by simp
  have "0 \<le> int (fst (gen g)) mod (b - a + 1)" using pos by (rule pos_mod_sign)
  moreover have "int (fst (gen g)) mod (b - a + 1) < b - a + 1" using pos by (rule pos_mod_bound)
  ultimately have v: "a \<le> v" "v \<le> b" unfolding v_def by linarith+
  have "sint (word_of_int v :: c_int) = signed_take_bit 31 v"
    by (simp add: sint_uint signed_take_bit_take_bit uint_word_of_int_eq)
  also have "\<dots> = v"
    using v assms(2,3) by (intro signed_take_bit_int_eq_self) (simp_all add: INT_MIN_def INT_MAX_def)
  finally have "sint (word_of_int v :: c_int) = v" .
  moreover have "fst (ud a b gen g) = word_of_int v"
    by (simp add: ud_def v_def split: prod.splits)
  ultimately show ?thesis using v by simp
qed

lemma populateDataSet_length: "length (fst (populateDataSet buf rng g)) = length buf"
proof (induction buf arbitrary: g)
  case Nil
  then show ?case by simp
next
  case (Cons d ds)
  obtain v g' where r: "rng g = (v, g')" by (cases "rng g")
  obtain vs g'' where p: "populateDataSet ds rng g' = (vs, g'')" by (cases "populateDataSet ds rng g'")
  have "length vs = length ds" using Cons.IH[of g'] p by simp
  then show ?case using r p by simp
qed

lemma populateDataSet_range:
  assumes "\<And>g. P (fst (rng g))"
  shows "\<forall>v\<in>set (fst (populateDataSet buf rng g)). P v"
proof (induction buf arbitrary: g)
  case Nil
  then show ?case by simp
next
  case (Cons d ds)
  obtain v g' where r: "rng g = (v, g')" by (cases "rng g")
  obtain vs g'' where p: "populateDataSet ds rng g' = (vs, g'')" by (cases "populateDataSet ds rng g'")
  have "P v" using assms[of g] r by simp
  moreover have "\<forall>x\<in>set vs. P x" using Cons.IH[of g'] p by simp
  ultimately show ?case using r p by simp
qed

lemma populate_ud_range:
  assumes "a \<le> b" and "INT_MIN \<le> a" and "b \<le> INT_MAX"
  shows "\<forall>v\<in>set (fst (populateDataSet buf (ud a b gen) g)). a \<le> sint v \<and> sint v \<le> b"
  by (rule populateDataSet_range) (rule ud_range [OF assms])

lemma square_bound:
  fixes x :: int
  assumes "1 \<le> x" and "x \<le> m"
  shows "x * x \<le> m * m"
  using assms by (intro mult_mono) simp_all

lemma squares_fit_range:
  assumes "\<forall>v\<in>set buf. 1 \<le> sint v \<and> sint v \<le> m" and "m * m \<le> INT_MAX"
  shows "squares_fit buf"
  unfolding squares_fit_def list_all_iff
proof
  fix v assume "v \<in> set buf"
  with assms(1) have "1 \<le> sint v" "sint v \<le> m" by simp_all
  then have "sint v * sint v \<le> m * m" by (rule square_bound)
  with assms(2) show "sint v * sint v \<le> INT_MAX" by simp
qed

lemma sum_squares_range:
  assumes "\<forall>v\<in>set buf. 1 \<le> sint v \<and> sint v \<le> m"
  shows "(\<Sum>d\<leftarrow>buf. sint d * sint d) \<le> int (length buf) * (m * m)"
  using assms
proof (induction buf)
  case Nil
  then show ?case by simp
next
  case (Cons d ds)
  then have "sint d * sint d \<le> m * m" by (intro square_bound) simp_all
  moreover have "(\<Sum>d\<leftarrow>ds. sint d * sint d) \<le> int (length ds) * (m * m)"
    using Cons by simp
  ultimately show ?case by (simp add: algebra_simps)
qed

lemma iter_swap_mset:
  "i < length xs \<Longrightarrow> j < length xs \<Longrightarrow> mset (iter_swap i j xs) = mset xs"
  unfolding iter_swap_def by (simp add: mset_swap)

lemma shuffle_loop_mset: "mset (fst (shuffle_loop i xs gen g)) = mset xs"
proof (induction i xs gen g rule: shuffle_loop.induct)
  case (1 i xs gen g)
  show ?case
  proof (cases "i < length xs")
    case True
    have "fst (gen g) mod (i + 1) < i + 1" by simp
    with True have j: "fst (gen g) mod (i + 1) < length xs" by linarith
    have "mset (fst (shuffle_loop i xs gen g)) =
          mset (fst (shuffle_loop (i + 1) (iter_swap i (fst (gen g) mod (i + 1)) xs) gen (snd (gen g))))"
      using True by (subst shuffle_loop.simps) simp
    also have "\<dots> = mset (iter_swap i (fst (gen g) mod (i + 1)) xs)"
      using True by (rule "1.IH")
    also have "\<dots> = mset xs" using True j by (rule iter_swap_mset)
    finally show ?thesis .
  next
    case False
    then show ?thesis by (subst shuffle_loop.simps) simp
  qed
qed

lemma shuffle_mset: "mset (fst (shuffle xs gen g)) = mset xs"
  by (simp add: shuffle_def shuffle_loop_mset)

lemma shuffle_bijection:
  "is_bijection ptrs n \<Longrightarrow> is_bijection (fst (shuffle ptrs gen g)) n"
  by (simp add: is_bijection_def shuffle_mset)

section \<open>The trial loops\<close>

lemma for_loop_invariant:
  assumes step: "\<And>i st. i < n \<Longrightarrow> I i st \<Longrightarrow> \<exists>st'. body i st = Inr st' \<and> I (i + 1) st'"
    and "I i st" and "i \<le> n"
  shows "\<exists>st'. for_loop body i n st = Inr st' \<and> I n st'"
  using assms(2,3)
proof (induction "n - i" arbitrary: i st)
  case 0
  then have "i = n" by simp
  with "0.prems" show ?case by (subst for_loop.simps) simp
next
  case (Suc d)
  then have lt: "i < n" by simp
  from step[OF lt Suc.prems(1)] obtain st1 where b: "body i st = Inr st1" and I1: "I (i + 1) st1"
    by blast
  have "d = n - (i + 1)" using Suc.hyps(2) by simp
  from Suc.hyps(1)[OF this I1] lt obtain st' where
    "for_loop body (i + 1) n st1 = Inr st'" "I n st'" by auto
  moreover have "for_loop body i n st = for_loop body (i + 1) n st1"
    using lt b by (subst for_loop.simps) simp
  ultimately show ?case by simp
qed

lemma log_event_fields [simp]:
  "st_data (log_event e st) = st_data st"
  "st_pointers (log_event e st) = st_pointers st"
  "st_re (log_event e st) = st_re st"
  "st_reads (log_event e st) = st_reads st"
  "st_runSum (log_event e st) = st_runSum st"
  "st_cout (log_event e st) = st_cout st"
  "st_trace (log_event e st) = st_trace st @ [e]"
  by (simp_all add: log_event_def)

lemma populate_step_fields [simp]:
  "st_data (populate_step a b gen st) = fst (populateDataSet (st_data st) (ud a b gen) (st_re st))"
  "st_pointers (populate_step a b gen st) = st_pointers st"
  "st_reads (populate_step a b gen st) = st_reads st"
  "st_runSum (populate_step a b gen st) = st_runSum st"
  "st_cout (populate_step a b gen st) = st_cout st"
  "st_trace (populate_step a b gen st) = st_trace st @ [EvPopulate]"
  by (simp_all add: populate_step_def)

lemma shuffle_step_fields [simp]:
  "st_data (shuffle_step gen st) = st_data st"
  "st_pointers (shuffle_step gen st) = fst (shuffle (st_pointers st) gen (st_re st))"
  "st_reads (shuffle_step gen st) = st_reads st"
  "st_runSum (shuffle_step gen st) = st_runSum st"
  "st_cout (shuffle_step gen st) = st_cout st"
  "st_trace (shuffle_step gen st) = st_trace st @ [EvShuffle]"
  by (simp_all add: shuffle_step_def)

lemma clearCache_fields [simp]:
  "st_data (clearCache st) = st_data st"
  "st_pointers (clearCache st) = st_pointers st"
  "st_re (clearCache st) = st_re st"
  "st_reads (clearCache st) = st_reads st"
  "st_runSum (clearCache st) = st_runSum st"
  "st_cout (clearCache st) = st_cout st"
  "st_trace (clearCache st) = st_trace st @ [EvClearCache]"
  by (simp_all add: clearCache_def)

lemma start_timer_fields [simp]:
  "st_data (start_timer st) = st_data st"
  "st_pointers (start_timer st) = st_pointers st"
  "st_re (start_timer st) = st_re st"
  "st_reads (start_timer st) = st_reads st + 1"
  "st_runSum (start_timer st) = st_runSum st"
  "st_cout (start_timer st) = st_cout st"
  "st_trace (start_timer st) = st_trace st @ [EvClockStart]"
  by (simp_all add: start_timer_def)

lemma stop_timer_fields [simp]:
  "st_data (stop_timer st) = st_data st"
  "st_pointers (stop_timer st) = st_pointers st"
  "st_re (stop_timer st) = st_re st"
  "st_reads (stop_timer st) = st_reads st + 1"
  "st_runSum (stop_timer st) = st_runSum st"
  "st_cout (stop_timer st) = st_cout st"
  "st_trace (stop_timer st) = st_trace st @ [EvClockStop]"
  by (simp_all add: stop_timer_def)

lemma accumulate_fields [simp]:
  "st_data (accumulate t st) = st_data st"
  "st_pointers (accumulate t st) = st_pointers st"
  "st_re (accumulate t st) = st_re st"
  "st_reads (accumulate t st) = st_reads st"
  "st_runSum (accumulate t st) = st_runSum st + t"
  "st_cout (accumulate t st) = st_cout st"
  "st_trace (accumulate t st) = st_trace st @ [EvAccumulate]"
  by (simp_all add: accumulate_def)

lemma populated_wide_fit:
  "squares_fit (fst (populateDataSet buf (ud 1 sqrt_int_max gen) g))"
proof (rule squares_fit_range)
  show "\<forall>v\<in>set (fst (populateDataSet buf (ud 1 sqrt_int_max gen) g)). 1 \<le> sint v \<and> sint v \<le> sqrt_int_max"
    by (rule populate_ud_range) (simp_all add: sqrt_int_max_eq INT_MIN_def INT_MAX_def)
  show "sqrt_int_max * sqrt_int_max \<le> INT_MAX"
    by (simp add: sqrt_int_max_eq INT_MAX_def)
qed

lemma populated_small_range:
  "\<forall>v\<in>set (fst (populateDataSet buf (ud 1 10 gen) g)). 1 \<le> sint v \<and> sint v \<le> 10"
  by (rule populate_ud_range) (simp_all add: INT_MIN_def INT_MAX_def)

lemma populated_small_fit:
  "squares_fit (fst (populateDataSet buf (ud 1 10 gen) g))"
  by (rule squares_fit_range [OF populated_small_range]) (simp add: INT_MAX_def)

lemma trial_indirection_ok:
  assumes "table_ok st"
  shows "\<exists>st'. trial_indirection clk gen i st = Inr st'
          \<and> st_pointers st' = st_pointers st
          \<and> length (st_data st') = length (st_data st)
          \<and> st_reads st' = st_reads st + 2
          \<and> st_runSum st' = st_runSum st + (clk (st_reads st + 1) - clk (st_reads st))
          \<and> st_cout st' = st_cout st
          \<and> st_trace st' = st_trace st @ indirection_trial_events"
proof -
  define buf where "buf = fst (populateDataSet (st_data st) (ud 1 sqrt_int_max gen) (st_re st))"
  have len: "length buf = length (st_data st)" by (simp add: buf_def populateDataSet_length)
  have fit: "squares_fit buf" unfolding buf_def by (rule populated_wide_fit)
  have bij: "is_bijection (st_pointers st) (length buf)"
    using assms len by (simp add: table_ok_def)
  have w: "doWork_ptrs (st_pointers st) buf = Inr (map (\<lambda>v. v * v) buf)"
    by (rule doWork_ptrs_bijection [OF bij fit])
  show ?thesis
    using w len
    by (simp add: trial_indirection_def Let_def indirection_trial_events_def buf_def [symmetric])
qed

lemma trial_demo_ok:
  assumes "table_ok st"
  shows "\<exists>st'. trial_demo clk gen i st = Inr st'
          \<and> table_ok st'
          \<and> length (st_data st') = length (st_data st)
          \<and> st_reads st' = st_reads st + 2
          \<and> st_runSum st' = st_runSum st + (clk (st_reads st + 1) - clk (st_reads st))
          \<and> st_cout st' = st_cout st
          \<and> st_trace st' = st_trace st @ demo_trial_events"
proof -
  define buf where "buf = fst (populateDataSet (st_data st) (ud 1 sqrt_int_max gen) (st_re st))"
  define g' where "g' = st_re (populate_step 1 sqrt_int_max gen st)"
  define ptrs where "ptrs = fst (shuffle (st_pointers st) gen g')"
  have len: "length buf = length (st_data st)" by (simp add: buf_def populateDataSet_length)
  have fit: "squares_fit buf" unfolding buf_def by (rule populated_wide_fit)
  have bij: "is_bijection ptrs (length buf)"
    unfolding ptrs_def using assms len by (simp add: table_ok_def shuffle_bijection)
  have w: "doWork_ptrs ptrs buf = Inr (map (\<lambda>v. v * v) buf)"
    by (rule doWork_ptrs_bijection [OF bij fit])
  show ?thesis
    using w len bij
    by (simp add: trial_demo_def Let_def demo_trial_events_def table_ok_def
        buf_def [symmetric] g'_def [symmetric] ptrs_def [symmetric])
qed

lemma doWork_populated_small:
  assumes "buf \<noteq> []" and "length buf < 2 ^ 64"
  shows "\<exists>r. doWork (fst (populateDataSet buf (ud 1 10 gen) g)) = Inr r"
proof -
  define p where "p = fst (populateDataSet buf (ud 1 10 gen) g)"
  have len: "length p = length buf" by (simp add: p_def populateDataSet_length)
  have fit: "squares_fit p" unfolding p_def by (rule populated_small_fit)
  have "p \<noteq> []" using len assms(1) by auto
  moreover have "length p < 2 ^ 64" using len assms(2) by simp
  ultimately have "doWork p \<noteq> Inl DivideByZero" using doWork_DivideByZero_iff by blast
  moreover have "sum_squares p 0 \<noteq> Inl e" for e
    using sum_squares_fit [OF fit, of 0] by simp
  ultimately show ?thesis
    unfolding p_def [symmetric]
    by (cases "doWork p") (auto simp: doWork_def Let_def split: sum.splits if_splits)
qed

lemma trial_base_ok:
  assumes "st_data st \<noteq> []" and "length (st_data st) < 2 ^ 64"
  shows "\<exists>st' r. trial_base clk gen i st = Inr st'
          \<and> st_pointers st' = st_pointers st
          \<and> length (st_data st') = length (st_data st)
          \<and> st_reads st' = st_reads st + 2
          \<and> st_runSum st' = st_runSum st + (clk (st_reads st + 1) - clk (st_reads st))
          \<and> st_cout st' = st_cout st @ progress_line (i + 1) r
          \<and> st_trace st' = st_trace st @ base_trial_events"
proof -
  from doWork_populated_small [OF assms, of gen "st_re st"] obtain r where
    r: "doWork (fst (populateDataSet (st_data st) (ud 1 10 gen) (st_re st))) = Inr r" by blast
  have "\<exists>st'. trial_base clk gen i st = Inr st'
          \<and> st_pointers st' = st_pointers st
          \<and> length (st_data st') = length (st_data st)
          \<and> st_reads st' = st_reads st + 2
          \<and> st_runSum st' = st_runSum st + (clk (st_reads st + 1) - clk (st_reads st))
          \<and> st_cout st' = st_cout st @ progress_line (i + 1) (sint r)
          \<and> st_trace st' = st_trace st @ base_trial_events"
    using r
    by (simp add: trial_base_def Let_def base_trial_events_def progress_line_def
        populateDataSet_length)
  then show ?thesis by blast
qed


lemma concat_replicate_Suc: "concat (replicate i evs) @ evs = concat (replicate (Suc i) evs)"
  by (induction i) simp_all

lemma loop_inv_start: "loop_inv clk evs st0 0 st0"
  by (simp add: loop_inv_def)

lemma loop_inv_step:
  assumes "loop_inv clk evs st0 i st"
    and "length (st_data st') = length (st_data st)"
    and "st_reads st' = st_reads st + 2"
    and "st_runSum st' = st_runSum st + (clk (st_reads st + 1) - clk (st_reads st))"
    and "st_trace st' = st_trace st @ evs"
  shows "loop_inv clk evs st0 (i + 1) st'"
  using assms by (simp add: loop_inv_def concat_replicate_Suc add.commute add.left_commute)

lemma indirection_loop_ok:
  assumes "table_ok st0"
  shows "\<exists>st. for_loop (trial_indirection clk gen) 0 n st0 = Inr st
          \<and> loop_inv clk indirection_trial_events st0 n st
          \<and> st_pointers st = st_pointers st0 \<and> st_cout st = st_cout st0"
proof -
  define I where "I = (\<lambda>i st. loop_inv clk indirection_trial_events st0 i st
      \<and> st_pointers st = st_pointers st0 \<and> st_cout st = st_cout st0)"
  have step: "\<exists>st'. trial_indirection clk gen i st = Inr st' \<and> I (i + 1) st'"
    if "i < n" and "I i st" for i st
  proof -
    have inv: "loop_inv clk indirection_trial_events st0 i st"
      and p: "st_pointers st = st_pointers st0" and c: "st_cout st = st_cout st0"
      using that(2) by (simp_all add: I_def)
    have "table_ok st"
      using assms inv p by (simp add: table_ok_def loop_inv_def)
    from trial_indirection_ok [OF this, of clk gen i] obtain st' where
      t: "trial_indirection clk gen i st = Inr st'"
      "st_pointers st' = st_pointers st"
      "length (st_data st') = length (st_data st)"
      "st_reads st' = st_reads st + 2"
      "st_runSum st' = st_runSum st + (clk (st_reads st + 1) - clk (st_reads st))"
      "st_cout st' = st_cout st"
      "st_trace st' = st_trace st @ indirection_trial_events" by blast
    have "loop_inv clk indirection_trial_events st0 (i + 1) st'"
      by (rule loop_inv_step [OF inv t(3) t(4) t(5) t(7)])
    with t p c show ?thesis by (simp add: I_def)
  qed
  have "I 0 st0" by (simp add: I_def loop_inv_start)
  from for_loop_invariant [of n I "trial_indirection clk gen", OF step this]
  show ?thesis by (simp add: I_def)
qed

lemma demo_loop_ok:
  assumes "table_ok st0"
  shows "\<exists>st. for_loop (trial_demo clk gen) 0 n st0 = Inr st
          \<and> loop_inv clk demo_trial_events st0 n st
          \<and> table_ok st \<and> st_cout st = st_cout st0"
proof -
  define I where "I = (\<lambda>i st. loop_inv clk demo_trial_events st0 i st
      \<and> table_ok st \<and> st_cout st = st_cout st0)"
  have step: "\<exists>st'. trial_demo clk gen i st = Inr st' \<and> I (i + 1) st'"
    if "i < n" and "I i st" for i st
  proof -
    have inv: "loop_inv clk demo_trial_events st0 i st"
      and p: "table_ok st" and c: "st_cout st = st_cout st0"
      using that(2) by (simp_all add: I_def)
    from trial_demo_ok [OF p, of clk gen i] obtain st' where
      t: "trial_demo clk gen i st = Inr st'"
      "table_ok st'"
      "length (st_data st') = length (st_data st)"
      "st_reads st' = st_reads st + 2"
      "st_runSum st' = st_runSum st + (clk (st_reads st + 1) - clk (st_reads st))"
      "st_cout st' = st_cout st"
      "st_trace st' = st_trace st @ demo_trial_events" by blast
    have "loop_inv clk demo_trial_events st0 (i + 1) st'"
      by (rule loop_inv_step [OF inv t(3) t(4) t(5) t(7)])
    with t c show ?thesis by (simp add: I_def)
  qed
  have "I 0 st0" using assms by (simp add: I_def loop_inv_start)
  from for_loop_invariant [of n I "trial_demo clk gen", OF step this]
  show ?thesis by (simp add: I_def)
qed

lemma progress_lines_snoc:
  "progress_lines (rs @ [r]) = progress_lines rs @ progress_line (length rs + 1) r"
  by (simp add: progress_lines_def)

lemma base_loop_ok:
  assumes "st_data st0 \<noteq> []" and "length (st_data st0) < 2 ^ 64"
  shows "\<exists>st rs. for_loop (trial_base clk gen) 0 n st0 = Inr st
          \<and> loop_inv clk base_trial_events st0 n st
          \<and> st_pointers st = st_pointers st0
          \<and> length rs = n \<and> st_cout st = st_cout st0 @ progress_lines rs"
proof -
  define I where "I = (\<lambda>i st. loop_inv clk base_trial_events st0 i st
      \<and> st_pointers st = st_pointers st0
      \<and> (\<exists>rs. length rs = i \<and> st_cout st = st_cout st0 @ progress_lines rs))"
  have step: "\<exists>st'. trial_base clk gen i st = Inr st' \<and> I (i + 1) st'"
    if "i < n" and "I i st" for i st
  proof -
    have inv: "loop_inv clk base_trial_events st0 i st"
      and p: "st_pointers st = st_pointers st0"
      using that(2) by (simp_all add: I_def)
    from that(2) obtain rs where rs: "length rs = i" "st_cout st = st_cout st0 @ progress_lines rs"
      by (auto simp: I_def)
    have d: "st_data st \<noteq> []" "length (st_data st) < 2 ^ 64"
      using assms inv by (auto simp: loop_inv_def)
    from trial_base_ok [OF d, of clk gen i] obtain st' r where
      t: "trial_base clk gen i st = Inr st'"
      "st_pointers st' = st_pointers st"
      "length (st_data st') = length (st_data st)"
      "st_reads st' = st_reads st + 2"
      "st_runSum st' = st_runSum st + (clk (st_reads st + 1) - clk (st_reads st))"
      "st_cout st' = st_cout st @ progress_line (i + 1) r"
      "st_trace st' = st_trace st @ base_trial_events" by blast
    have inv': "loop_inv clk base_trial_events st0 (i + 1) st'"
      by (rule loop_inv_step [OF inv t(3) t(4) t(5) t(7)])
    have "length (rs @ [r]) = i + 1 \<and> st_cout st' = st_cout st0 @ progress_lines (rs @ [r])"
      using rs t(6) by (simp add: progress_lines_snoc)
    then have "\<exists>rs. length rs = i + 1 \<and> st_cout st' = st_cout st0 @ progress_lines rs" ..
    with inv' t(2) p have "I (i + 1) st'" by (simp add: I_def)
    with t(1) show ?thesis by blast
  qed
  have "I 0 st0" by (simp add: I_def loop_inv_start progress_lines_def)
  from for_loop_invariant [of n I "trial_base clk gen", OF step this]
  show ?thesis unfolding I_def by blast
qed

section \<open>The Reporter and the whole programs\<close>

lemma quot_nonneg: "0 \<le> a \<Longrightarrow> 0 < b \<Longrightarrow> quot a b = a div b"
  by (simp add: quot_def)

lemma averageRunTime_base_nonneg:
  assumes "0 \<le> runSum" and "0 < iterations"
  shows "averageRunTime_base runSum iterations = Inr (runSum div 1000 div int iterations)"
proof -
  have "count_us runSum = runSum div 1000"
    using assms(1) by (simp add: count_us_def quot_nonneg)
  moreover have "0 \<le> runSum div 1000"
    using assms(1) by (simp add: pos_imp_zdiv_nonneg_iff)
  ultimately show ?thesis
    using assms(2) by (simp add: averageRunTime_base_def quot_nonneg)
qed

lemma word_of_nat_nonzero:
  assumes "0 < n" and "n < 2 ^ 64"
  shows "(of_nat n :: c_ulong) \<noteq> 0" and "uint (of_nat n :: c_ulong) = int n"
proof -
  show u: "uint (of_nat n :: c_ulong) = int n"
    using assms(2) by (simp add: unsigned_of_nat take_bit_nat_eq_self)
  show "(of_nat n :: c_ulong) \<noteq> 0"
  proof
    assume "(of_nat n :: c_ulong) = 0"
    then have "uint (of_nat n :: c_ulong) = 0" by simp
    with u assms(1) show False by simp
  qed
qed

lemma averageRunTime_ptrs_defined:
  assumes "0 < iterations" and "iterations < 2 ^ 64"
  shows "averageRunTime_ptrs runSum iterations =
         Inr ((word_of_int runSum :: c_ulong) div of_nat iterations)"
  using word_of_nat_nonzero(1) [OF assms] by (simp add: averageRunTime_ptrs_def)

lemma averageRunTime_ptrs_nonneg:
  assumes "0 \<le> runSum" and "runSum < 2 ^ 64" and "0 < iterations" and "iterations < 2 ^ 64"
  shows "\<exists>avg. averageRunTime_ptrs runSum iterations = Inr avg
          \<and> uint avg = runSum div int iterations"
proof -
  have "uint (word_of_int runSum :: c_ulong) = runSum"
    using assms(1,2) by (simp add: uint_word_of_int_eq take_bit_int_eq_self)
  then have "uint ((word_of_int runSum :: c_ulong) div of_nat iterations) = runSum div int iterations"
    using word_of_nat_nonzero(2) [OF assms(3,4)] by (simp add: uint_div)
  with averageRunTime_ptrs_defined [OF assms(3,4)] show ?thesis by simp
qed

lemma ptrs_init_table: "st_pointers (ptrs_init n seed) = map Some [0..<n]"
  by (simp add: ptrs_init_def buildIdentityTable_eq)

lemma ptrs_init_ok: "table_ok (ptrs_init n seed)"
  by (simp add: table_ok_def is_bijection_def ptrs_init_def buildIdentityTable_eq)

lemma loop_inv_init:
  assumes "loop_inv clk evs st0 n st" and "st_reads st0 = 1" and "st_runSum st0 = 0"
  shows "st_reads st = 2 * n + 1" and "st_runSum st = (\<Sum>k<n. elapsed clk k)"
    and "st_trace st = st_trace st0 @ concat (replicate n evs)"
    and "length (st_data st) = length (st_data st0)"
  using assms by (simp_all add: loop_inv_def elapsed_def)

lemma indirection_run:
  "\<exists>st. for_loop (trial_indirection clk gen) 0 n (ptrs_init m seed) = Inr st
     \<and> st_reads st = 2 * n + 1
     \<and> st_runSum st = (\<Sum>k<n. elapsed clk k)
     \<and> st_trace st = EvBuildTable # concat (replicate n indirection_trial_events)
     \<and> st_pointers st = map Some [0..<m]
     \<and> length (st_data st) = m
     \<and> st_cout st = []"
proof -
  from indirection_loop_ok [OF ptrs_init_ok, of clk gen n m seed] obtain st where
    st: "for_loop (trial_indirection clk gen) 0 n (ptrs_init m seed) = Inr st"
    "loop_inv clk indirection_trial_events (ptrs_init m seed) n st"
    "st_pointers st = st_pointers (ptrs_init m seed)" "st_cout st = st_cout (ptrs_init m seed)"
    by blast
  have i: "st_reads (ptrs_init m seed) = 1" "st_runSum (ptrs_init m seed) = 0"
    by (simp_all add: ptrs_init_def)
  from loop_inv_init [OF st(2) i] st(1,3,4) show ?thesis
    by (simp add: ptrs_init_table) (simp add: ptrs_init_def)
qed

lemma demo_run:
  "\<exists>st. for_loop (trial_demo clk gen) 0 n (ptrs_init m seed) = Inr st
     \<and> st_reads st = 2 * n + 1
     \<and> st_runSum st = (\<Sum>k<n. elapsed clk k)
     \<and> st_trace st = EvBuildTable # concat (replicate n demo_trial_events)
     \<and> table_ok st
     \<and> length (st_data st) = m
     \<and> st_cout st = []"
proof -
  from demo_loop_ok [OF ptrs_init_ok, of clk gen n m seed] obtain st where
    st: "for_loop (trial_demo clk gen) 0 n (ptrs_init m seed) = Inr st"
    "loop_inv clk demo_trial_events (ptrs_init m seed) n st"
    "table_ok st" "st_cout st = st_cout (ptrs_init m seed)"
    by blast
  have i: "st_reads (ptrs_init m seed) = 1" "st_runSum (ptrs_init m seed) = 0"
    by (simp_all add: ptrs_init_def)
  from loop_inv_init [OF st(2) i] st(1,3,4) show ?thesis
    by (simp add: ptrs_init_def)
qed

lemma base_run:
  assumes "0 < m" and "m < 2 ^ 64"
  shows "\<exists>st rs. for_loop (trial_base clk gen) 0 n (base_init m seed) = Inr st
     \<and> st_reads st = 2 * n + 1
     \<and> st_runSum st = (\<Sum>k<n. elapsed clk k)
     \<and> st_trace st = concat (replicate n base_trial_events)
     \<and> length rs = n
     \<and> st_cout st = progress_lines rs"
proof -
  have d: "st_data (base_init m seed) \<noteq> []" "length (st_data (base_init m seed)) < 2 ^ 64"
    using assms by (auto simp: base_init_def)
  from base_loop_ok [OF d, of clk gen n] obtain st rs where
    st: "for_loop (trial_base clk gen) 0 n (base_init m seed) = Inr st"
    "loop_inv clk base_trial_events (base_init m seed) n st"
    "length rs = n" "st_cout st = st_cout (base_init m seed) @ progress_lines rs"
    by blast
  have i: "st_reads (base_init m seed) = 1" "st_runSum (base_init m seed) = 0"
    by (simp_all add: base_init_def)
  from loop_inv_init [OF st(2) i] st(1,3,4) show ?thesis
    by (auto simp: base_init_def)
qed

lemma report_ptrs_ok:
  assumes "0 < n" and "n < 2 ^ 64"
  shows "\<exists>st'. report_ptrs clk n t0 st = Inr st'
     \<and> st_runSum st' = st_runSum st
     \<and> st_pointers st' = st_pointers st
     \<and> st_data st' = st_data st
     \<and> st_trace st' = st_trace st @ [EvReport]
     \<and> st_cout st' = st_cout st @ total_line (count_ms (clk (st_reads st) - t0))
          @ runs_line n (count_ms (st_runSum st))
          @ average_line_ptrs ((word_of_int (st_runSum st) :: c_ulong) div of_nat n)"
  by (simp add: report_ptrs_def Let_def averageRunTime_ptrs_defined [OF assms])

lemma report_base_ok:
  assumes "0 < n"
  shows "\<exists>st'. report_base clk n t0 st = Inr st'
     \<and> st_runSum st' = st_runSum st
     \<and> st_trace st' = st_trace st @ [EvReport]
     \<and> st_cout st' = st_cout st @ newline @ total_line (count_ms (clk (st_reads st) - t0))
          @ runs_line n (count_ms (st_runSum st))
          @ average_line_base (quot (count_us (st_runSum st)) (int n))"
  using assms by (simp add: report_base_def Let_def averageRunTime_base_def)

lemma indirection_program_ok:
  assumes "0 < n" and "n < 2 ^ 64"
  shows "\<exists>st. indirection_program n m clk gen seed = Inr st
     \<and> st_runSum st = (\<Sum>k<n. elapsed clk k)
     \<and> st_trace st = EvBuildTable # concat (replicate n indirection_trial_events) @ [EvReport]
     \<and> st_pointers st = map Some [0..<m]
     \<and> st_cout st = total_line (count_ms (clk (2 * n + 1) - clk 0))
          @ runs_line n (count_ms (\<Sum>k<n. elapsed clk k))
          @ average_line_ptrs ((word_of_int (\<Sum>k<n. elapsed clk k) :: c_ulong) div of_nat n)"
proof -
  from indirection_run [of clk gen n m seed] obtain st where
    st: "for_loop (trial_indirection clk gen) 0 n (ptrs_init m seed) = Inr st"
    "st_reads st = 2 * n + 1" "st_runSum st = (\<Sum>k<n. elapsed clk k)"
    "st_trace st = EvBuildTable # concat (replicate n indirection_trial_events)"
    "st_pointers st = map Some [0..<m]" "st_cout st = []" by blast
  from report_ptrs_ok [OF assms, of clk "clk 0" st] st show ?thesis
    by (auto simp: indirection_program_def)
qed

lemma demo_program_ok:
  assumes "0 < n" and "n < 2 ^ 64"
  shows "\<exists>st. demo_program n m clk gen seed = Inr st
     \<and> st_runSum st = (\<Sum>k<n. elapsed clk k)
     \<and> st_trace st = EvBuildTable # concat (replicate n demo_trial_events) @ [EvReport]
     \<and> table_ok st
     \<and> st_cout st = total_line (count_ms (clk (2 * n + 1) - clk 0))
          @ runs_line n (count_ms (\<Sum>k<n. elapsed clk k))
          @ average_line_ptrs ((word_of_int (\<Sum>k<n. elapsed clk k) :: c_ulong) div of_nat n)"
proof -
  from demo_run [of clk gen n m seed] obtain st where
    st: "for_loop (trial_demo clk gen) 0 n (ptrs_init m seed) = Inr st"
    "st_reads st = 2 * n + 1" "st_runSum st = (\<Sum>k<n. elapsed clk k)"
    "st_trace st = EvBuildTable # concat (replicate n demo_trial_events)"
    "table_ok st" "st_cout st = []" by blast
  from report_ptrs_ok [OF assms, of clk "clk 0" st] st show ?thesis
    by (auto simp: demo_program_def table_ok_def)
qed

lemma base_program_ok:
  assumes "0 < n" and "0 < m" and "m < 2 ^ 64"
  shows "\<exists>st rs. base_program n m clk gen seed = Inr st
     \<and> st_runSum st = (\<Sum>k<n. elapsed clk k)
     \<and> st_trace st = concat (replicate n base_trial_events) @ [EvReport]
     \<and> length rs = n
     \<and> st_cout st = progress_lines rs @ newline
          @ total_line (count_ms (clk (2 * n + 1) - clk 0))
          @ runs_line n (count_ms (\<Sum>k<n. elapsed clk k))
          @ average_line_base (quot (count_us (\<Sum>k<n. elapsed clk k)) (int n))"
proof -
  from base_run [OF assms(2,3), of clk gen n seed] obtain st rs where
    st: "for_loop (trial_base clk gen) 0 n (base_init m seed) = Inr st"
    "st_reads st = 2 * n + 1" "st_runSum st = (\<Sum>k<n. elapsed clk k)"
    "st_trace st = concat (replicate n base_trial_events)"
    "length rs = n" "st_cout st = progress_lines rs" by blast
  from report_base_ok [OF assms(1), of clk "clk 0" st] obtain st' where
    "report_base clk n (clk 0) st = Inr st'" "st_runSum st' = st_runSum st"
    "st_trace st' = st_trace st @ [EvReport]"
    "st_cout st' = st_cout st @ newline @ total_line (count_ms (clk (st_reads st) - clk 0))
          @ runs_line n (count_ms (st_runSum st))
          @ average_line_base (quot (count_us (st_runSum st)) (int n))" by blast
  with st have "base_program n m clk gen seed = Inr st'
     \<and> st_runSum st' = (\<Sum>k<n. elapsed clk k)
     \<and> st_trace st' = concat (replicate n base_trial_events) @ [EvReport]
     \<and> length rs = n
     \<and> st_cout st' = progress_lines rs @ newline
          @ total_line (count_ms (clk (2 * n + 1) - clk 0))
          @ runs_line n (count_ms (\<Sum>k<n. elapsed clk k))
          @ average_line_base (quot (count_us (\<Sum>k<n. elapsed clk k)) (int n))"
    by (simp add: base_program_def)
  then show ?thesis by blast
qed

lemma data_size: "intsInCache * 10 = 20971520"
  by (simp add: intsInCache_def cacheSize_def)

lemma doWork_ptrs_sint:
  assumes "squares_fit buf"
  shows "map sint (map (\<lambda>v. v * v) buf) = map (\<lambda>v. sint v * sint v) buf"
  using assms by (induction buf) (simp_all add: squares_fit_def mul_int_fit(2))

section \<open>The in-place-square executor\<close>

text \<open>
  C2. For every buffer in which the square of each element is representable in \<^verbatim>\<open>int\<close>
  and every Reference Table that is a permutation of the buffer's indices, the in-place
  \<open>doWork\<close> replaces each element by the square of its previous value. For every
  buffer, two tables that are permutations of its indices lead to the same outcome, so
  the outcome does not depend on the traversal order. The buffer \<open>[2, 3, 4]\<close> becomes
  \<open>[4, 9, 16]\<close> under the identity table and under the table \<open>[2, 0, 1]\<close>.
\<close>

theorem doWork_ptrs_squares:
  "(is_bijection ptrs (length buf) \<and> squares_fit buf \<longrightarrow>
      (\<exists>buf'. doWork_ptrs ptrs buf = Inr buf'
         \<and> map sint buf' = map (\<lambda>v. sint v * sint v) buf))
   \<and> (is_bijection ptrs (length buf) \<and> is_bijection ptrs' (length buf) \<longrightarrow>
         doWork_ptrs ptrs buf = doWork_ptrs ptrs' buf)
   \<and> doWork_ptrs [Some 0, Some 1, Some 2] [2, 3, 4] = Inr [4, 9, 16]
   \<and> doWork_ptrs [Some 2, Some 0, Some 1] [2, 3, 4] = Inr [4, 9, 16]"
proof -
  have a: "\<exists>buf'. doWork_ptrs ptrs buf = Inr buf' \<and> map sint buf' = map (\<lambda>v. sint v * sint v) buf"
    if "is_bijection ptrs (length buf)" "squares_fit buf"
    using doWork_ptrs_bijection [OF that] doWork_ptrs_sint [OF that(2)] by simp
  have b: "doWork_ptrs ptrs buf = doWork_ptrs ptrs' buf"
    if p: "is_bijection ptrs (length buf)" and p': "is_bijection ptrs' (length buf)"
  proof (cases "squares_fit buf")
    case True
    then show ?thesis
      using doWork_ptrs_bijection [OF p] doWork_ptrs_bijection [OF p'] by simp
  next
    case False
    then show ?thesis
      using doWork_ptrs_bijection_overflow [OF p] doWork_ptrs_bijection_overflow [OF p'] by simp
  qed
  have c: "doWork_ptrs [Some 0, Some 1, Some 2] [2, 3, 4] = Inr [4, 9, 16]"
    by (simp add: mul_int_def INT_MAX_def INT_MIN_def)
  have d: "doWork_ptrs [Some 2, Some 0, Some 1] [2, 3, 4] = Inr [4, 9, 16]"
    by (simp add: mul_int_def INT_MAX_def INT_MIN_def)
  from a b c d show ?thesis by blast
qed

theorem doWork_ptrs_squares_witness:
  "is_bijection [Some 2, Some 0, Some 1] (length [2, 3, 4 :: c_int])
   \<and> is_bijection [Some 0, Some 1, Some 2] (length [2, 3, 4 :: c_int])
   \<and> squares_fit [2, 3, 4]
   \<and> (\<exists>buf'. doWork_ptrs [Some 2, Some 0, Some 1] [2, 3, 4] = Inr buf'
         \<and> map sint buf' = [4, 9, 16])
   \<and> doWork_ptrs [Some 2, Some 0, Some 1] [2, 3, 4]
       = doWork_ptrs [Some 0, Some 1, Some 2] [2, 3, 4]"
proof -
  have h1: "is_bijection [Some 2, Some 0, Some 1] (length [2, 3, 4 :: c_int])"
    by (simp add: is_bijection_def)
  have h2: "is_bijection [Some 0, Some 1, Some 2] (length [2, 3, 4 :: c_int])"
    by (simp add: is_bijection_def)
  have h3: "squares_fit [2, 3, 4]" by (simp add: squares_fit_def INT_MAX_def)
  from doWork_ptrs_squares [of "[Some 2, Some 0, Some 1]" "[2, 3, 4]" "[Some 0, Some 1, Some 2]"]
    h1 h2 h3
  show ?thesis by simp
qed

text \<open>
  The one-element table \<open>[0]\<close> is a permutation of the indices of the buffer \<open>[65536]\<close>,
  whose element has no square in \<^verbatim>\<open>int\<close>: the product overflows and the run has no
  defined result.
\<close>

theorem doWork_ptrs_squares_counterexample:
  "is_bijection [Some 0] (length [65536 :: c_int])
   \<and> doWork_ptrs [Some 0] [65536] = Inl SignedOverflow"
  by (simp add: is_bijection_def mul_int_def INT_MAX_def INT_MIN_def)

lemma concat_replicate_set: "set (concat (replicate n xs)) \<subseteq> set xs"
  by (induction n) auto

lemma indirection_main_trace:
  "\<exists>st. indirection_main clk gen seed = Inr st
     \<and> st_trace st = EvBuildTable # concat (replicate 1000 indirection_trial_events) @ [EvReport]"
  using indirection_program_ok [of 1000 "intsInCache * 10" clk gen seed]
  by (auto simp: indirection_main_def)

lemma demo_main_trace:
  "\<exists>st. demo_main clk gen seed = Inr st
     \<and> st_trace st = EvBuildTable # concat (replicate 1000 demo_trial_events) @ [EvReport]"
  using demo_program_ok [of 1000 "intsInCache * 10" clk gen seed]
  by (auto simp: demo_main_def)

lemma base_main_trace:
  "\<exists>st. base_main clk gen seed = Inr st
     \<and> st_trace st = concat (replicate 1000 base_trial_events) @ [EvReport]"
proof -
  have "0 < intsInCache * 10" "intsInCache * 10 < 2 ^ 64" by (simp_all add: data_size)
  from base_program_ok [OF _ this, of 1000 clk gen seed] show ?thesis
    by (auto simp: base_main_def)
qed

lemma no_build_in_trials:
  "EvBuildTable \<notin> set (concat (replicate n indirection_trial_events) @ [EvReport])"
  "EvBuildTable \<notin> set (concat (replicate n demo_trial_events) @ [EvReport])"
  using concat_replicate_set [of n indirection_trial_events]
    concat_replicate_set [of n demo_trial_events]
  by (auto simp: indirection_trial_events_def demo_trial_events_def)

section \<open>The Reference Table\<close>

text \<open>
  C4. For every Sample Buffer of size \<open>M\<close>, building the Reference Table gives a table of
  length \<open>M\<close> that is a permutation of \<open>0..M-1\<close>, namely the identity: entry \<open>i\<close> points
  to element \<open>i\<close>. In indirection.cpp and demo.cpp the table is built once, before the
  first trial: the history of a run starts with the construction, and no later step
  builds the table again.
\<close>

theorem identity_table:
  "buildIdentityTable buf = map Some [0..<length buf]
   \<and> length (buildIdentityTable buf) = length buf
   \<and> is_bijection (buildIdentityTable buf) (length buf)
   \<and> (\<forall>i<length buf. buildIdentityTable buf ! i = Some i)
   \<and> (\<exists>st rest. indirection_main clk gen seed = Inr st
         \<and> st_trace st = EvBuildTable # rest \<and> EvBuildTable \<notin> set rest)
   \<and> (\<exists>st rest. demo_main clk gen seed = Inr st
         \<and> st_trace st = EvBuildTable # rest \<and> EvBuildTable \<notin> set rest)"
proof -
  have a: "buildIdentityTable buf = map Some [0..<length buf]" by (rule buildIdentityTable_eq)
  have b: "length (buildIdentityTable buf) = length buf" by (simp add: a)
  have c: "is_bijection (buildIdentityTable buf) (length buf)" by (simp add: a is_bijection_def)
  have d: "\<forall>i<length buf. buildIdentityTable buf ! i = Some i" by (simp add: a)
  have e: "\<exists>st rest. indirection_main clk gen seed = Inr st
         \<and> st_trace st = EvBuildTable # rest \<and> EvBuildTable \<notin> set rest"
    using indirection_main_trace [of clk gen seed] no_build_in_trials(1) [of 1000] by blast
  have f: "\<exists>st rest. demo_main clk gen seed = Inr st
         \<and> st_trace st = EvBuildTable # rest \<and> EvBuildTable \<notin> set rest"
    using demo_main_trace [of clk gen seed] no_build_in_trials(2) [of 1000] by blast
  from a b c d e f show ?thesis by blast
qed

theorem identity_table_witness:
  "buildIdentityTable [7, 7, 7] = [Some 0, Some 1, Some 2]
   \<and> length (buildIdentityTable [7, 7, 7]) = 3
   \<and> is_bijection (buildIdentityTable [7, 7, 7]) 3
   \<and> (1 :: nat) < length [7, 7, 7 :: c_int]
   \<and> buildIdentityTable [7, 7, 7] ! 1 = Some 1"
proof -
  have u: "[0..<length [7, 7, 7 :: c_int]] = [0, 1, 2]" by (simp add: upt_rec)
  have l: "(1 :: nat) < length [7, 7, 7 :: c_int]" by simp
  from identity_table [of "[7, 7, 7]" advancing_clock minstd_rand0 42] have
    t: "buildIdentityTable [7, 7, 7] = map Some [0..<length [7, 7, 7 :: c_int]]"
    "is_bijection (buildIdentityTable [7, 7, 7]) (length [7, 7, 7 :: c_int])"
    "\<forall>i<length [7, 7, 7 :: c_int]. buildIdentityTable [7, 7, 7] ! i = Some i"
    by blast+
  from t(3) l have "buildIdentityTable [7, 7, 7] ! 1 = Some 1" by blast
  with t(1,2) u l show ?thesis by (simp add: numeral_3_eq_3)
qed

section \<open>The fill ranges\<close>

text \<open>
  C5. \<open>populateDataSet\<close> assigns every element of the Sample Buffer a value in the range
  of the variant: 1 to 10 in base.cpp, 1 to the integer square root of the largest
  \<^verbatim>\<open>int\<close> (46340) in indirection.cpp and demo.cpp. Under these ranges nothing overflows:
  the square of every element of the wide range is representable in \<^verbatim>\<open>int\<close>, and over
  a buffer of up to \<^verbatim>\<open>intsInCache * 10\<close> elements of the small range the 64-bit accumulator
  holds the exact sum of squares.
\<close>

theorem fill_range_no_overflow:
  "length (fst (populateDataSet buf (ud 1 10 gen) g)) = length buf
   \<and> (\<forall>v\<in>set (fst (populateDataSet buf (ud 1 10 gen) g)). 1 \<le> sint v \<and> sint v \<le> 10)
   \<and> sqrt_int_max = 46340
   \<and> length (fst (populateDataSet buf (ud 1 sqrt_int_max gen) g)) = length buf
   \<and> (\<forall>v\<in>set (fst (populateDataSet buf (ud 1 sqrt_int_max gen) g)).
         1 \<le> sint v \<and> sint v \<le> sqrt_int_max
         \<and> mul_int v v = Inr (v * v) \<and> sint (v * v) = sint v * sint v)
   \<and> (length buf \<le> intsInCache * 10 \<longrightarrow>
        (\<exists>acc. sum_squares (fst (populateDataSet buf (ud 1 10 gen) g)) 0 = Inr acc
           \<and> uint acc = (\<Sum>d\<leftarrow>fst (populateDataSet buf (ud 1 10 gen) g). sint d * sint d)))"
proof -
  define small where "small = fst (populateDataSet buf (ud 1 10 gen) g)"
  define wide where "wide = fst (populateDataSet buf (ud 1 sqrt_int_max gen) g)"
  have ls: "length small = length buf" by (simp add: small_def populateDataSet_length)
  have lw: "length wide = length buf" by (simp add: wide_def populateDataSet_length)
  have rs: "\<forall>v\<in>set small. 1 \<le> sint v \<and> sint v \<le> 10"
    unfolding small_def by (rule populated_small_range)
  have rw: "\<forall>v\<in>set wide. 1 \<le> sint v \<and> sint v \<le> sqrt_int_max"
    unfolding wide_def
    by (rule populate_ud_range) (simp_all add: sqrt_int_max_eq INT_MIN_def INT_MAX_def)
  have fw: "squares_fit wide" unfolding wide_def by (rule populated_wide_fit)
  have mw: "\<forall>v\<in>set wide. 1 \<le> sint v \<and> sint v \<le> sqrt_int_max
         \<and> mul_int v v = Inr (v * v) \<and> sint (v * v) = sint v * sint v"
  proof
    fix v assume v: "v \<in> set wide"
    with fw have "sint v * sint v \<le> INT_MAX" by (simp add: squares_fit_def list_all_iff)
    from mul_int_fit [OF this] rw v
    show "1 \<le> sint v \<and> sint v \<le> sqrt_int_max
         \<and> mul_int v v = Inr (v * v) \<and> sint (v * v) = sint v * sint v" by simp
  qed
  have acc: "\<exists>acc. sum_squares small 0 = Inr acc \<and> uint acc = (\<Sum>d\<leftarrow>small. sint d * sint d)"
    if len: "length buf \<le> intsInCache * 10"
  proof -
    have fs: "squares_fit small" unfolding small_def by (rule populated_small_fit)
    have "(\<Sum>d\<leftarrow>small. sint d * sint d) \<le> int (length small) * (10 * 10)"
      by (rule sum_squares_range [OF rs])
    also have "\<dots> \<le> int (intsInCache * 10) * (10 * 10)"
      using len ls by simp
    also have "\<dots> < 2 ^ 64" by (simp add: data_size)
    finally have hi: "(\<Sum>d\<leftarrow>small. sint d * sint d) < 2 ^ 64" .
    have lo: "0 \<le> (\<Sum>d\<leftarrow>small. sint d * sint d)"
      using sum_list_squares_bounds [OF fs] by simp
    have "uint (word_of_int (\<Sum>d\<leftarrow>small. sint d * sint d) :: c_ulong) = (\<Sum>d\<leftarrow>small. sint d * sint d)"
      using lo hi by (simp add: uint_word_of_int_eq take_bit_int_eq_self)
    with sum_squares_fit [OF fs, of 0] show ?thesis by simp
  qed
  from ls lw rs mw acc sqrt_int_max_eq show ?thesis
    unfolding small_def wide_def by blast
qed

theorem fill_range_no_overflow_witness:
  "fst (populateDataSet [0, 0, 0] (ud 1 10 minstd_rand0) 42) = [5, 4, 10]
   \<and> length [0, 0, 0 :: c_int] \<le> intsInCache * 10
   \<and> (\<exists>acc. sum_squares [5, 4, 10] 0 = Inr acc \<and> uint acc = 141)
   \<and> fst (populateDataSet [0, 0, 0] (ud 1 sqrt_int_max minstd_rand0) 42) = [10795, 16824, 42810]
   \<and> mul_int 42810 42810 = Inr 1832696100"
proof -
  have p: "fst (populateDataSet [0, 0, 0] (ud 1 10 minstd_rand0) 42) = [5, 4, 10]"
    by (simp add: ud_def minstd_rand0_def)
  have w: "fst (populateDataSet [0, 0, 0] (ud 1 sqrt_int_max minstd_rand0) 42) = [10795, 16824, 42810]"
    by (simp add: ud_def minstd_rand0_def sqrt_int_max_eq)
  have l: "length [0, 0, 0 :: c_int] \<le> intsInCache * 10" by (simp add: data_size)
  note t = fill_range_no_overflow [of "[0, 0, 0]" minstd_rand0 42]
  from t l have "\<exists>acc. sum_squares (fst (populateDataSet [0, 0, 0] (ud 1 10 minstd_rand0) 42)) 0 = Inr acc
      \<and> uint acc = (\<Sum>d\<leftarrow>fst (populateDataSet [0, 0, 0] (ud 1 10 minstd_rand0) 42). sint d * sint d)"
    by blast
  then have a: "\<exists>acc. sum_squares [5, 4, 10] 0 = Inr acc \<and> uint acc = 141"
    unfolding p by simp
  from t have "\<forall>v\<in>set (fst (populateDataSet [0, 0, 0] (ud 1 sqrt_int_max minstd_rand0) 42)).
      mul_int v v = Inr (v * v)" by blast
  then have m: "mul_int 42810 42810 = Inr 1832696100" unfolding w by simp
  from p w l a m show ?thesis by blast
qed

lemma doWork_ptrs_table_ok:
  assumes "table_ok st" and "doWork_ptrs (st_pointers st) (st_data st) = Inr buf"
  shows "table_ok (st\<lparr>st_data := buf\<rparr>)"
proof (cases "squares_fit (st_data st)")
  case True
  from assms(1) have "is_bijection (st_pointers st) (length (st_data st))" by (simp add: table_ok_def)
  from doWork_ptrs_bijection [OF this True] assms show ?thesis by (auto simp: table_ok_def)
next
  case False
  from assms(1) have "is_bijection (st_pointers st) (length (st_data st))" by (simp add: table_ok_def)
  from doWork_ptrs_bijection_overflow [OF this False] assms(2) show ?thesis by simp
qed

text \<open>
  C3. The Reference Table is a bijection onto the indices of the Sample Buffer at every
  point of the trial loop of indirection.cpp and demo.cpp: it is one after the table is
  built, every step of a trial keeps it one, and so does any number of trials.
  Repopulating the buffer leaves the table as it is. The shuffle keeps every table of
  length at least 2 a bijection.
\<close>

theorem reference_table_invariant:
  "table_ok (ptrs_init n seed)
   \<and> (table_ok st \<longrightarrow>
        st_pointers (populate_step a b gen st) = st_pointers st
      \<and> table_ok (populate_step a b gen st)
      \<and> table_ok (shuffle_step gen st)
      \<and> table_ok (clearCache st)
      \<and> table_ok (start_timer st)
      \<and> (\<forall>buf. doWork_ptrs (st_pointers st) (st_data st) = Inr buf \<longrightarrow>
            table_ok (st\<lparr>st_data := buf\<rparr>))
      \<and> table_ok (stop_timer st)
      \<and> table_ok (accumulate t st)
      \<and> (\<exists>st'. trial_indirection clk gen i st = Inr st' \<and> table_ok st'
            \<and> st_pointers st' = st_pointers st)
      \<and> (\<exists>st'. trial_demo clk gen i st = Inr st' \<and> table_ok st')
      \<and> (\<exists>st'. for_loop (trial_indirection clk gen) 0 iterations st = Inr st' \<and> table_ok st'
            \<and> st_pointers st' = st_pointers st)
      \<and> (\<exists>st'. for_loop (trial_demo clk gen) 0 iterations st = Inr st' \<and> table_ok st'))
   \<and> (2 \<le> length ptrs \<and> is_bijection ptrs (length ptrs) \<longrightarrow>
        is_bijection (fst (shuffle ptrs gen g)) (length ptrs))"
proof -
  have init: "table_ok (ptrs_init n seed)" by (rule ptrs_init_ok)
  have sh: "is_bijection (fst (shuffle ptrs gen g)) (length ptrs)"
    if "is_bijection ptrs (length ptrs)"
    using that by (rule shuffle_bijection)
  have steps: "st_pointers (populate_step a b gen st) = st_pointers st
      \<and> table_ok (populate_step a b gen st)
      \<and> table_ok (shuffle_step gen st)
      \<and> table_ok (clearCache st)
      \<and> table_ok (start_timer st)
      \<and> table_ok (stop_timer st)
      \<and> table_ok (accumulate t st)" if "table_ok st"
    using that by (simp add: table_ok_def populateDataSet_length shuffle_bijection)
  have work: "\<forall>buf. doWork_ptrs (st_pointers st) (st_data st) = Inr buf \<longrightarrow>
            table_ok (st\<lparr>st_data := buf\<rparr>)" if "table_ok st"
    using doWork_ptrs_table_ok [OF that] by blast
  have ti: "\<exists>st'. trial_indirection clk gen i st = Inr st' \<and> table_ok st'
            \<and> st_pointers st' = st_pointers st" if "table_ok st"
  proof -
    from trial_indirection_ok [OF that, of clk gen i] obtain st' where
      "trial_indirection clk gen i st = Inr st'" "st_pointers st' = st_pointers st"
      "length (st_data st') = length (st_data st)" by blast
    with that show ?thesis by (auto simp: table_ok_def)
  qed
  have td: "\<exists>st'. trial_demo clk gen i st = Inr st' \<and> table_ok st'" if "table_ok st"
    using trial_demo_ok [OF that, of clk gen i] by blast
  have li: "\<exists>st'. for_loop (trial_indirection clk gen) 0 iterations st = Inr st' \<and> table_ok st'
            \<and> st_pointers st' = st_pointers st" if "table_ok st"
  proof -
    from indirection_loop_ok [OF that, of clk gen iterations] obtain st' where
      "for_loop (trial_indirection clk gen) 0 iterations st = Inr st'"
      "loop_inv clk indirection_trial_events st iterations st'"
      "st_pointers st' = st_pointers st" by blast
    with that show ?thesis by (auto simp: table_ok_def loop_inv_def)
  qed
  have ld: "\<exists>st'. for_loop (trial_demo clk gen) 0 iterations st = Inr st' \<and> table_ok st'"
    if "table_ok st"
    using demo_loop_ok [OF that, of clk gen iterations] by blast
  from init sh steps work ti td li ld show ?thesis by blast
qed

theorem reference_table_invariant_witness:
  "table_ok (ptrs_init 3 (42 :: nat))
   \<and> st_pointers (populate_step 1 10 minstd_rand0 (ptrs_init 3 42)) = [Some 0, Some 1, Some 2]
   \<and> table_ok (shuffle_step minstd_rand0 (ptrs_init 3 42))
   \<and> doWork_ptrs (st_pointers (ptrs_init 3 (42 :: nat))) (st_data (ptrs_init 3 (42 :: nat)))
       = Inr [0, 0, 0]
   \<and> table_ok ((ptrs_init 3 (42 :: nat))\<lparr>st_data := [0, 0, 0]\<rparr>)
   \<and> (\<exists>st'. for_loop (trial_demo advancing_clock minstd_rand0) 0 2 (ptrs_init 3 42) = Inr st'
         \<and> table_ok st')
   \<and> 2 \<le> length [Some 0, Some 1, Some (2 :: nat)]
   \<and> is_bijection [Some 0, Some 1, Some 2] (length [Some 0, Some 1, Some (2 :: nat)])
   \<and> is_bijection (fst (shuffle [Some 0, Some 1, Some 2] minstd_rand0 42))
        (length [Some 0, Some 1, Some (2 :: nat)])"
proof -
  note t = reference_table_invariant [where n = 3 and seed = "42 :: nat"
      and st = "ptrs_init 3 42" and a = 1 and b = 10 and gen = minstd_rand0 and t = 0
      and clk = advancing_clock and i = 0 and iterations = 2
      and ptrs = "[Some 0, Some 1, Some 2]" and g = 42]
  have h1: "2 \<le> length [Some 0, Some 1, Some (2 :: nat)]" by simp
  have h2: "is_bijection [Some 0, Some 1, Some 2] (length [Some 0, Some 1, Some (2 :: nat)])"
    by (simp add: is_bijection_def)
  have p: "st_pointers (ptrs_init 3 (42 :: nat)) = [Some 0, Some 1, Some 2]"
    by (simp add: ptrs_init_table upt_rec)
  from t have ok: "table_ok (ptrs_init 3 (42 :: nat))" by blast
  from t ok have a: "st_pointers (populate_step 1 10 minstd_rand0 (ptrs_init 3 42))
      = st_pointers (ptrs_init 3 (42 :: nat))" by blast
  from t ok have b: "table_ok (shuffle_step minstd_rand0 (ptrs_init 3 42))" by blast
  have w: "doWork_ptrs (st_pointers (ptrs_init 3 (42 :: nat))) (st_data (ptrs_init 3 (42 :: nat)))
      = Inr [0, 0, 0]"
    unfolding p by (simp add: ptrs_init_def numeral_3_eq_3 mul_int_def INT_MAX_def INT_MIN_def)
  from t ok w have w': "table_ok ((ptrs_init 3 (42 :: nat))\<lparr>st_data := [0, 0, 0]\<rparr>)" by blast
  from t ok have c: "\<exists>st'. for_loop (trial_demo advancing_clock minstd_rand0) 0 2 (ptrs_init 3 42) = Inr st'
         \<and> table_ok st'" by blast
  from t h1 h2 have d: "is_bijection (fst (shuffle [Some 0, Some 1, Some 2] minstd_rand0 42))
        (length [Some 0, Some 1, Some (2 :: nat)])" by blast
  from ok a p b w w' c h1 h2 d show ?thesis by simp
qed

lemma count_list_concat_replicate:
  "count_list (concat (replicate n xs)) e = n * count_list xs e"
  by (induction n) simp_all

section \<open>The trial loop\<close>

text \<open>
  C6. Each program runs 1000 trials, none skipped and none repeated. Each trial performs,
  in this order: populate; in demo.cpp only, one shuffle of the Reference Table; cache
  invalidation; the start timestamp; the workload; the end timestamp; the accumulation
  of the elapsed time. base.cpp and indirection.cpp never shuffle.
\<close>

theorem trial_loop_protocol:
  "(\<exists>st. base_main clk gen seed = Inr st
      \<and> st_trace st =
          concat (replicate 1000
            [EvPopulate, EvClearCache, EvClockStart, EvDoWork, EvClockStop, EvAccumulate,
             EvProgress]) @ [EvReport]
      \<and> count_list (st_trace st) EvShuffle = 0)
   \<and> (\<exists>st. indirection_main clk gen seed = Inr st
      \<and> st_trace st =
          EvBuildTable # concat (replicate 1000
            [EvPopulate, EvClearCache, EvClockStart, EvDoWork, EvClockStop, EvAccumulate])
          @ [EvReport]
      \<and> count_list (st_trace st) EvShuffle = 0)
   \<and> (\<exists>st. demo_main clk gen seed = Inr st
      \<and> st_trace st =
          EvBuildTable # concat (replicate 1000
            [EvPopulate, EvShuffle, EvClearCache, EvClockStart, EvDoWork, EvClockStop,
             EvAccumulate]) @ [EvReport]
      \<and> count_list (st_trace st) EvShuffle = 1000)"
proof -
  from base_main_trace [of clk gen seed] obtain sb where
    sb: "base_main clk gen seed = Inr sb"
    "st_trace sb = concat (replicate 1000 base_trial_events) @ [EvReport]" by blast
  from indirection_main_trace [of clk gen seed] obtain si where
    si: "indirection_main clk gen seed = Inr si"
    "st_trace si = EvBuildTable # concat (replicate 1000 indirection_trial_events) @ [EvReport]"
    by blast
  from demo_main_trace [of clk gen seed] obtain sd where
    sd: "demo_main clk gen seed = Inr sd"
    "st_trace sd = EvBuildTable # concat (replicate 1000 demo_trial_events) @ [EvReport]"
    by blast
  have "count_list (st_trace sb) EvShuffle = 0"
    unfolding sb(2) by (simp add: count_list_concat_replicate base_trial_events_def)
  moreover have "count_list (st_trace si) EvShuffle = 0"
    unfolding si(2) by (simp add: count_list_concat_replicate indirection_trial_events_def)
  moreover have "count_list (st_trace sd) EvShuffle = 1000"
    unfolding sd(2) by (simp add: count_list_concat_replicate demo_trial_events_def)
  ultimately show ?thesis
    using sb si sd
    unfolding base_trial_events_def indirection_trial_events_def demo_trial_events_def
    by blast
qed

lemma sum_elapsed_mono:
  assumes "\<forall>k<n. 0 \<le> elapsed clk k" and "j \<le> n"
  shows "0 \<le> (\<Sum>k<j. elapsed clk k)" and "(\<Sum>k<j. elapsed clk k) \<le> (\<Sum>k<n. elapsed clk k)"
proof -
  show "0 \<le> (\<Sum>k<j. elapsed clk k)"
    using assms by (intro sum_nonneg) auto
  show "(\<Sum>k<j. elapsed clk k) \<le> (\<Sum>k<n. elapsed clk k)"
    using assms by (intro sum_mono2) auto
qed

text \<open>
  C7. The Duration Accumulator starts at zero, and after \<open>n\<close> trials it is the sum of the
  \<open>n\<close> elapsed times, each the end timestamp of a trial minus its start timestamp. When
  no end timestamp is earlier than its start timestamp, every elapsed time is
  non-negative and the accumulator never decreases from one trial to a later one.
\<close>

theorem runSum_sum_of_elapsed:
  assumes "0 < m" and "m < 2 ^ 64"
  shows "st_runSum (base_init m seed) = 0 \<and> st_runSum (ptrs_init m seed) = 0
    \<and> (\<exists>sb si sd.
          for_loop (trial_base clk gen) 0 n (base_init m seed) = Inr sb
        \<and> for_loop (trial_indirection clk gen) 0 n (ptrs_init m seed) = Inr si
        \<and> for_loop (trial_demo clk gen) 0 n (ptrs_init m seed) = Inr sd
        \<and> st_runSum sb = (\<Sum>k<n. elapsed clk k)
        \<and> st_runSum si = (\<Sum>k<n. elapsed clk k)
        \<and> st_runSum sd = (\<Sum>k<n. elapsed clk k))
    \<and> ((\<forall>k<n. clk (2 * k + 1) \<le> clk (2 * k + 2)) \<longrightarrow>
          (\<forall>k<n. 0 \<le> elapsed clk k)
        \<and> (\<forall>j\<le>n. 0 \<le> (\<Sum>k<j. elapsed clk k)
                \<and> (\<Sum>k<j. elapsed clk k) \<le> (\<Sum>k<n. elapsed clk k)))"
proof -
  have z: "st_runSum (base_init m seed) = 0 \<and> st_runSum (ptrs_init m seed) = 0"
    by (simp add: base_init_def ptrs_init_def)
  from base_run [OF assms, of clk gen n seed] obtain sb where
    sb: "for_loop (trial_base clk gen) 0 n (base_init m seed) = Inr sb"
    "st_runSum sb = (\<Sum>k<n. elapsed clk k)" by blast
  from indirection_run [of clk gen n m seed] obtain si where
    si: "for_loop (trial_indirection clk gen) 0 n (ptrs_init m seed) = Inr si"
    "st_runSum si = (\<Sum>k<n. elapsed clk k)" by blast
  from demo_run [of clk gen n m seed] obtain sd where
    sd: "for_loop (trial_demo clk gen) 0 n (ptrs_init m seed) = Inr sd"
    "st_runSum sd = (\<Sum>k<n. elapsed clk k)" by blast
  have mono: "(\<forall>k<n. 0 \<le> elapsed clk k)
        \<and> (\<forall>j\<le>n. 0 \<le> (\<Sum>k<j. elapsed clk k)
                \<and> (\<Sum>k<j. elapsed clk k) \<le> (\<Sum>k<n. elapsed clk k))"
    if c: "\<forall>k<n. clk (2 * k + 1) \<le> clk (2 * k + 2)"
  proof -
    from c have e: "\<forall>k<n. 0 \<le> elapsed clk k" by (simp add: elapsed_def)
    with sum_elapsed_mono [OF e] show ?thesis by blast
  qed
  from z sb si sd mono show ?thesis by blast
qed

lemma advancing_elapsed:
  "(\<Sum>k<1. elapsed advancing_clock k) = 4500000"
  "(\<Sum>k<2. elapsed advancing_clock k) = 15000000"
  by (simp_all add: elapsed_def advancing_clock_def numeral_2_eq_2)

theorem runSum_sum_of_elapsed_witness:
  "(0 :: nat) < 3 \<and> (3 :: nat) < 2 ^ 64
   \<and> advancing_clock 1 \<le> advancing_clock 2 \<and> advancing_clock 3 \<le> advancing_clock 4
   \<and> (\<exists>sb si sd.
          for_loop (trial_base advancing_clock minstd_rand0) 0 2 (base_init 3 42) = Inr sb
        \<and> for_loop (trial_indirection advancing_clock minstd_rand0) 0 2 (ptrs_init 3 42) = Inr si
        \<and> for_loop (trial_demo advancing_clock minstd_rand0) 0 2 (ptrs_init 3 42) = Inr sd
        \<and> st_runSum sb = 15000000 \<and> st_runSum si = 15000000 \<and> st_runSum sd = 15000000)
   \<and> (\<Sum>k<1. elapsed advancing_clock k) \<le> (\<Sum>k<2. elapsed advancing_clock k)"
proof -
  have h1: "(0 :: nat) < 3" and h2: "(3 :: nat) < 2 ^ 64" by simp_all
  note t = runSum_sum_of_elapsed [OF h1 h2, of 42 advancing_clock minstd_rand0 2]
  have c: "\<forall>k<2. advancing_clock (2 * k + 1) \<le> advancing_clock (2 * k + 2)"
  proof (intro allI impI)
    fix k :: nat
    assume "k < 2"
    then have "k = 0 \<or> k = 1" by auto
    then show "advancing_clock (2 * k + 1) \<le> advancing_clock (2 * k + 2)"
      by (auto simp: advancing_clock_def)
  qed
  have c': "advancing_clock 1 \<le> advancing_clock 2 \<and> advancing_clock 3 \<le> advancing_clock 4"
    by (simp add: advancing_clock_def)
  from t have loops: "\<exists>sb si sd.
          for_loop (trial_base advancing_clock minstd_rand0) 0 2 (base_init 3 42) = Inr sb
        \<and> for_loop (trial_indirection advancing_clock minstd_rand0) 0 2 (ptrs_init 3 42) = Inr si
        \<and> for_loop (trial_demo advancing_clock minstd_rand0) 0 2 (ptrs_init 3 42) = Inr sd
        \<and> st_runSum sb = (\<Sum>k<2. elapsed advancing_clock k)
        \<and> st_runSum si = (\<Sum>k<2. elapsed advancing_clock k)
        \<and> st_runSum sd = (\<Sum>k<2. elapsed advancing_clock k)" by blast
  from t c have "\<forall>j\<le>2. (\<Sum>k<j. elapsed advancing_clock k) \<le> (\<Sum>k<2. elapsed advancing_clock k)"
    by blast
  moreover have "(1 :: nat) \<le> 2" by simp
  ultimately have m: "(\<Sum>k<1. elapsed advancing_clock k) \<le> (\<Sum>k<2. elapsed advancing_clock k)"
    by blast
  from h1 h2 c' loops m show ?thesis by (simp add: advancing_elapsed)
qed

text \<open>
  With a clock that is set back between the two readings of a trial, the accumulator
  falls from 0 to \<open>- 50\<close> in the first trial.
\<close>

theorem runSum_sum_of_elapsed_counterexample:
  "st_runSum (ptrs_init 1 (42 :: nat)) = 0
   \<and> map_sum id st_runSum
        (for_loop (trial_indirection stepped_back_clock minstd_rand0) 0 1 (ptrs_init 1 42))
       = Inr (- 50)"
proof -
  from indirection_run [of stepped_back_clock minstd_rand0 1 1 42] obtain st where
    "for_loop (trial_indirection stepped_back_clock minstd_rand0) 0 1 (ptrs_init 1 42) = Inr st"
    "st_runSum st = (\<Sum>k<1. elapsed stepped_back_clock k)" by blast
  then show ?thesis
    by (simp add: elapsed_def stepped_back_clock_def ptrs_init_def)
qed

section \<open>The Reporter\<close>

text \<open>
  C8. The average trial time is the accumulated time, truncated to the unit of the
  variant, divided by the iteration count with integer truncation. In base.cpp this
  holds for every accumulated time (microseconds, signed division). In indirection.cpp
  and demo.cpp it holds for every non-negative accumulated time (nanoseconds): the
  division there is unsigned.
\<close>

theorem average_runSum_div_iterations:
  "(0 < n \<longrightarrow> averageRunTime_base runSum n = Inr (quot (quot runSum 1000) (int n)))
   \<and> (0 \<le> runSum \<and> 0 < n \<longrightarrow>
        averageRunTime_base runSum n = Inr (runSum div 1000 div int n))
   \<and> (0 \<le> runSum \<and> runSum < 2 ^ 63 \<and> 0 < n \<and> n < 2 ^ 64 \<longrightarrow>
        (\<exists>avg. averageRunTime_ptrs runSum n = Inr avg \<and> uint avg = runSum div int n))"
proof -
  have a: "averageRunTime_base runSum n = Inr (quot (quot runSum 1000) (int n))" if "0 < n"
    using that by (simp add: averageRunTime_base_def count_us_def)
  have b: "averageRunTime_base runSum n = Inr (runSum div 1000 div int n)"
    if "0 \<le> runSum" "0 < n"
    using that by (rule averageRunTime_base_nonneg)
  have c: "\<exists>avg. averageRunTime_ptrs runSum n = Inr avg \<and> uint avg = runSum div int n"
    if "0 \<le> runSum" "runSum < 2 ^ 63" "0 < n" "n < 2 ^ 64"
  proof -
    from that(2) have "runSum < 2 ^ 64" by simp
    from averageRunTime_ptrs_nonneg [OF that(1) this that(3,4)] show ?thesis .
  qed
  from a b c show ?thesis by blast
qed

theorem average_runSum_div_iterations_witness:
  "(0 :: nat) < 2 \<and> (0 :: int) \<le> 15000000 \<and> (15000000 :: int) < 2 ^ 63 \<and> (2 :: nat) < 2 ^ 64
   \<and> averageRunTime_base 15000000 2 = Inr 7500
   \<and> (\<exists>avg. averageRunTime_ptrs 15000000 2 = Inr avg \<and> uint avg = 7500000)"
proof -
  have h: "(0 :: nat) < 2 \<and> (0 :: int) \<le> 15000000 \<and> (15000000 :: int) < 2 ^ 63
      \<and> (2 :: nat) < 2 ^ 64" by simp
  note t = average_runSum_div_iterations [of 2 15000000]
  from t h have a: "averageRunTime_base 15000000 2 = Inr (15000000 div 1000 div int 2)" by blast
  from t h have b: "\<exists>avg. averageRunTime_ptrs 15000000 2 = Inr avg
      \<and> uint avg = 15000000 div int 2" by blast
  from h a b show ?thesis by simp
qed

text \<open>
  An accumulated time of \<open>- 1000\<close> nanoseconds over 1000 iterations: the unsigned division
  of indirection.cpp and demo.cpp gives \<open>18446744073709550\<close>, not \<open>- 1\<close>.
\<close>

theorem average_runSum_div_iterations_counterexample:
  "averageRunTime_ptrs (- 1000) 1000 = Inr 18446744073709550
   \<and> quot (- 1000) 1000 = - 1"
  by (simp add: averageRunTime_ptrs_def quot_def)

text \<open>
  C9. base.cpp writes one progress line per trial, each ended by a carriage return, then
  a newline and the three summary lines; indirection.cpp and demo.cpp write the three
  summary lines only. The summary gives the wall-clock time of the run and the
  accumulated trial time, each as whole seconds, a point and the remaining
  milliseconds, and then the average line.
\<close>

theorem standard_output:
  "(\<exists>st rs. base_main clk gen seed = Inr st \<and> length rs = 1000
      \<and> st_cout st = progress_lines rs @ newline
          @ total_line (count_ms (clk 2001 - clk 0))
          @ runs_line 1000 (count_ms (st_runSum st))
          @ average_line_base (quot (count_us (st_runSum st)) 1000))
   \<and> (\<exists>st. indirection_main clk gen seed = Inr st
      \<and> st_cout st = total_line (count_ms (clk 2001 - clk 0))
          @ runs_line 1000 (count_ms (st_runSum st))
          @ average_line_ptrs ((word_of_int (st_runSum st) :: c_ulong) div 1000))
   \<and> (\<exists>st. demo_main clk gen seed = Inr st
      \<and> st_cout st = total_line (count_ms (clk 2001 - clk 0))
          @ runs_line 1000 (count_ms (st_runSum st))
          @ average_line_ptrs ((word_of_int (st_runSum st) :: c_ulong) div 1000))"
proof -
  have sz: "0 < intsInCache * 10" "intsInCache * 10 < 2 ^ 64" by (simp_all add: data_size)
  have a: "\<exists>st rs. base_main clk gen seed = Inr st \<and> length rs = 1000
      \<and> st_cout st = progress_lines rs @ newline
          @ total_line (count_ms (clk 2001 - clk 0))
          @ runs_line 1000 (count_ms (st_runSum st))
          @ average_line_base (quot (count_us (st_runSum st)) 1000)"
    using base_program_ok [OF _ sz, of 1000 clk gen seed] by (auto simp: base_main_def)
  have b: "\<exists>st. indirection_main clk gen seed = Inr st
      \<and> st_cout st = total_line (count_ms (clk 2001 - clk 0))
          @ runs_line 1000 (count_ms (st_runSum st))
          @ average_line_ptrs ((word_of_int (st_runSum st) :: c_ulong) div 1000)"
    using indirection_program_ok [of 1000 "intsInCache * 10" clk gen seed]
    by (auto simp: indirection_main_def)
  have c: "\<exists>st. demo_main clk gen seed = Inr st
      \<and> st_cout st = total_line (count_ms (clk 2001 - clk 0))
          @ runs_line 1000 (count_ms (st_runSum st))
          @ average_line_ptrs ((word_of_int (st_runSum st) :: c_ulong) div 1000)"
    using demo_program_ok [of 1000 "intsInCache * 10" clk gen seed]
    by (auto simp: demo_main_def)
  from a b c show ?thesis by blast
qed

text \<open>
  A run of indirection.cpp's program with 2 trials writes no progress line; its average
  of 7500000 nanoseconds is printed as \<open>7500.0 milliseconds\<close>.
\<close>

theorem standard_output_counterexample:
  "map_sum id st_cout (indirection_program 2 3 advancing_clock minstd_rand0 42)
   = Inr (''Ran for a total of 0.37 seconds (including bookkeeping and cache clearing)''
          @ newline @ ''2 runs took 0.15 seconds total,''
          @ newline @ ''Averaging 7500.0 milliseconds per run'' @ newline)"
proof -
  have n: "(0 :: nat) < 2" "(2 :: nat) < 2 ^ 64" by simp_all
  from indirection_program_ok [OF n, of 3 advancing_clock minstd_rand0 42] obtain st where
    "indirection_program 2 3 advancing_clock minstd_rand0 42 = Inr st"
    "st_cout st = total_line (count_ms (advancing_clock (2 * 2 + 1) - advancing_clock 0))
          @ runs_line 2 (count_ms (\<Sum>k<2. elapsed advancing_clock k))
          @ average_line_ptrs ((word_of_int (\<Sum>k<2. elapsed advancing_clock k) :: c_ulong) div of_nat 2)"
    by blast
  then show ?thesis
    by (simp add: advancing_elapsed advancing_clock_def total_line_def runs_line_def
        average_line_ptrs_def count_ms_def quot_def rem_def show_int_def show_nat.simps digit_def)
qed

end
